theory Spec2Isabelle
  imports Complex_Main "HOL-Library.Log_Nat" "HOL-Library.Multiset"
begin

section \<open>Host values\<close>

text \<open>
  The values a Node.js resolver hands back: strings, arrays and plain objects
  (for example an MX entry \<^verbatim>\<open>{exchange, priority}\<close>), with integers inside the objects.
  Strings are lists of ASCII characters.
\<close>

datatype jsval =
    JStr string
  | JNum int
  | JArr "jsval list"
  | JObj "(string \<times> jsval) list"

text \<open>\<^verbatim>\<open>typeof r === 'object'\<close>: true of arrays and of plain objects.\<close>

fun typeof_object :: "jsval \<Rightarrow> bool" where
  "typeof_object (JArr xs) = True"
| "typeof_object (JObj kvs) = True"
| "typeof_object v = False"

text \<open>\<^verbatim>\<open>Array.isArray\<close>.\<close>

fun isArray :: "jsval \<Rightarrow> bool" where
  "isArray (JArr xs) = True"
| "isArray v = False"

text \<open>
  The builtins the scripts call and do not define: the validation of an address by
  \<^verbatim>\<open>resolver.setServers\<close>, \<^verbatim>\<open>JSON.stringify\<close>, and the decimal rendering of a number.
\<close>

record host =
  isIP :: "string \<Rightarrow> bool"
  JSON_stringify :: "jsval \<Rightarrow> string"
  Number_toString :: "int \<Rightarrow> string"

text \<open>\<^verbatim>\<open>Array.prototype.join\<close> on strings that are already converted.\<close>

fun join :: "string \<Rightarrow> string list \<Rightarrow> string" where
  "join sep [] = []"
| "join sep [x] = x"
| "join sep (x # y # xs) = x @ sep @ join sep (y # xs)"

text \<open>The conversion to a string that \<^verbatim>\<open>join\<close> applies to each element.\<close>

fun ToString :: "host \<Rightarrow> jsval \<Rightarrow> string" where
  "ToString h (JStr s) = s"
| "ToString h (JNum n) = Number_toString h n"
| "ToString h (JArr xs) = join '','' (map (ToString h) xs)"
| "ToString h (JObj kvs) = ''[object Object]''"

text \<open>
  An error object as a rejected resolution carries it; \<open>code\<close> is \<open>None\<close> when the
  property is absent.
\<close>

record js_error =
  code :: "string option"
  message :: string

text \<open>
  What escapes a function as an exception: the two statements of \<^verbatim>\<open>checkDNSServer\<close> that
  stand before its \<^verbatim>\<open>try\<close> can throw.
\<close>

datatype exn =
    ERR_INVALID_IP_ADDRESS string
  | TypeError string

text \<open>The state of a promise once the event loop has run.\<close>

datatype 'a completion = Pending | Rejected exn | Fulfilled 'a

section \<open>Numbers\<close>

text \<open>
  A JavaScript number is an IEEE 754 binary64 value. \<open>Fin q\<close> is the finite double whose
  exact value is the rational \<open>q\<close>. The operands of the scripts are array lengths and the
  constant 100, far from the ends of the exponent range, so only the rounding of the
  53-bit significand is modelled: to nearest, ties to even.
\<close>

datatype jsnum = NaN | PosInf | Fin rat

text \<open>The exponent \<open>e\<close> with \<open>2^e \<le> q < 2^(e+1)\<close>, for positive \<open>q\<close>.\<close>

definition binade :: "rat \<Rightarrow> int" where
  "binade q = (let (n, d) = quotient_of q; k = bitlen n - bitlen d
               in if 2 powi k \<le> q then k else k - 1)"

definition round_half_even :: "rat \<Rightarrow> int" where
  "round_half_even m = (let f = \<lfloor>m\<rfloor>; d = m - of_int f
     in if d < 1/2 then f else if 1/2 < d then f + 1 else if even f then f else f + 1)"

text \<open>The double nearest to a non-negative rational.\<close>

definition fl :: "rat \<Rightarrow> rat" where
  "fl q = (if q \<le> 0 then 0
           else let u = 2 powi (binade q - 52) in of_int (round_half_even (q / u)) * u)"

text \<open>Division of two array lengths: \<^verbatim>\<open>0 / 0\<close> is NaN, \<^verbatim>\<open>n / 0\<close> is Infinity.\<close>

definition js_div :: "nat \<Rightarrow> nat \<Rightarrow> jsnum" where
  "js_div a b = (if b = 0 then (if a = 0 then NaN else PosInf)
                 else Fin (fl (of_nat a / of_nat b)))"

text \<open>Multiplication by a positive constant.\<close>

fun js_mul :: "jsnum \<Rightarrow> rat \<Rightarrow> jsnum" where
  "js_mul NaN c = NaN"
| "js_mul PosInf c = PosInf"
| "js_mul (Fin x) c = Fin (fl (x * c))"

text \<open>\<^verbatim>\<open>Math.round\<close>: the nearest integer, a tie going up.\<close>

fun Math_round :: "jsnum \<Rightarrow> jsnum" where
  "Math_round NaN = NaN"
| "Math_round PosInf = PosInf"
| "Math_round (Fin x) = Fin (of_int \<lfloor>x + 1/2\<rfloor>)"

section \<open>scripts/check-propagation.js\<close>

record server =
  name :: string
  ip :: string

definition DNS_SERVERS :: "server list" where
  "DNS_SERVERS =
    [\<lparr>name = ''Google'', ip = ''8.8.8.8''\<rparr>,
     \<lparr>name = ''Google Secondary'', ip = ''8.8.4.4''\<rparr>,
     \<lparr>name = ''Cloudflare'', ip = ''1.1.1.1''\<rparr>,
     \<lparr>name = ''Cloudflare Secondary'', ip = ''1.0.0.1''\<rparr>,
     \<lparr>name = ''OpenDNS'', ip = ''208.67.222.222''\<rparr>,
     \<lparr>name = ''Quad9'', ip = ''9.9.9.9''\<rparr>]"

text \<open>
  One round of the outside world: what each resolver method answers for a server address
  and a domain, and the order in which the probes of the round complete (positions in
  the target list).
\<close>

record world =
  resolve :: "string \<Rightarrow> string \<Rightarrow> string \<Rightarrow> js_error + jsval"
  order :: "nat list"

text \<open>The object literal of \<^verbatim>\<open>checkDNSServer\<close>, its own properties in order.\<close>

definition resolveMethod_table :: "(string \<times> string) list" where
  "resolveMethod_table =
    [(''A'', ''resolve4''), (''AAAA'', ''resolve6''), (''CNAME'', ''resolveCname''),
     (''MX'', ''resolveMx''), (''TXT'', ''resolveTxt''), (''NS'', ''resolveNs'')]"

text \<open>
  An object literal inherits from \<^verbatim>\<open>Object.prototype\<close>; a lookup under one of these names
  finds a function (or, for \<^verbatim>\<open>__proto__\<close>, the prototype itself) instead of
  \<^verbatim>\<open>undefined\<close>.
\<close>

definition Object_prototype :: "string list" where
  "Object_prototype =
    [''constructor'', ''hasOwnProperty'', ''isPrototypeOf'', ''propertyIsEnumerable'',
     ''toLocaleString'', ''toString'', ''valueOf'', ''__proto__'',
     ''__defineGetter__'', ''__defineSetter__'', ''__lookupGetter__'', ''__lookupSetter__'']"

datatype lookup = Method string | Inherited string

text \<open>
  \<^verbatim>\<open>{A: 'resolve4', ...}[recordType] || 'resolve4'\<close>. The own values are non-empty
  strings and an inherited value is an object, all truthy: only \<^verbatim>\<open>undefined\<close> takes the
  right-hand side.
\<close>

definition resolveMethod :: "string \<Rightarrow> lookup" where
  "resolveMethod recordType =
    (case map_of resolveMethod_table recordType of
       Some m \<Rightarrow> Method m
     | None \<Rightarrow> if recordType \<in> set Object_prototype then Inherited recordType
               else Method ''resolve4'')"

text \<open>\<^verbatim>\<open>error.code || error.message\<close>: an absent or empty code gives the message.\<close>

definition error_reason :: "js_error \<Rightarrow> string" where
  "error_reason e = (case code e of
       Some c \<Rightarrow> if c \<noteq> [] then c else message e
     | None \<Rightarrow> message e)"

text \<open>
  \<^verbatim>\<open>Array.isArray(result) ? result.map(r => typeof r === 'object' ? JSON.stringify(r) : r).join(', ') : result\<close>
\<close>

definition stringify_element :: "host \<Rightarrow> jsval \<Rightarrow> jsval" where
  "stringify_element h r = (if typeof_object r then JStr (JSON_stringify h r) else r)"

fun format_value :: "host \<Rightarrow> jsval \<Rightarrow> jsval" where
  "format_value h (JArr rs) = JStr (join '', '' (map (ToString h) (map (stringify_element h) rs)))"
| "format_value h v = v"

text \<open>The object a probe returns; an absent property is \<open>None\<close>.\<close>

record outcome =
  server :: string
  success :: bool
  p_value :: "jsval option"
  p_error :: "string option"

text \<open>
  \<^verbatim>\<open>checkDNSServer\<close>. \<^verbatim>\<open>setServers\<close> throws on an address that is not an IP literal, and
  \<^verbatim>\<open>resolver[resolveMethod].bind\<close> throws when the lookup found an inherited value, since the
  resolver has no property of that name; both stand before the \<^verbatim>\<open>try\<close>. Inside it, the
  rejection of the resolution is caught.
\<close>

definition checkDNSServer :: "host \<Rightarrow> world \<Rightarrow> string \<Rightarrow> string \<Rightarrow> server \<Rightarrow> exn + outcome" where
  "checkDNSServer h w domain recordType srv =
    (if \<not> isIP h (ip srv) then Inl (ERR_INVALID_IP_ADDRESS (ip srv))
     else case resolveMethod recordType of
       Inherited k \<Rightarrow> Inl (TypeError k)
     | Method m \<Rightarrow>
        (case resolve w m (ip srv) domain of
           Inr result \<Rightarrow>
             Inr \<lparr>server = name srv, success = True,
                  p_value = Some (format_value h result), p_error = None\<rparr>
         | Inl e \<Rightarrow>
             Inr \<lparr>server = name srv, success = False,
                  p_value = None, p_error = Some (error_reason e)\<rparr>))"

text \<open>
  \<^verbatim>\<open>Promise.all\<close>. A probe that throws before its first \<^verbatim>\<open>await\<close> hands over a promise
  that is rejected from the start: \<^verbatim>\<open>Promise.all\<close> comes to these in declaration order,
  before any resolution completes, and rejects with the first of them. With no such
  promise, the promises settle in the given order; each fulfilment is stored at the
  position of its promise, and the result is fulfilled once every position is filled.
\<close>

fun first_rejection :: "(exn + 'a) list \<Rightarrow> exn option" where
  "first_rejection [] = None"
| "first_rejection (Inl e # ps) = Some e"
| "first_rejection (Inr v # ps) = first_rejection ps"

fun settle :: "nat list \<Rightarrow> (exn + 'a) list \<Rightarrow> 'a option list \<Rightarrow> 'a list completion" where
  "settle [] ps vals =
     (if list_all (\<lambda>v. v \<noteq> None) vals then Fulfilled (map the vals) else Pending)"
| "settle (i # rest) ps vals =
     (if i < length ps then
        (case ps ! i of
           Inl e \<Rightarrow> Rejected e
         | Inr v \<Rightarrow> settle rest ps (vals[i := Some v]))
      else settle rest ps vals)"

definition Promise_all :: "nat list \<Rightarrow> (exn + 'a) list \<Rightarrow> 'a list completion" where
  "Promise_all ord ps =
    (case first_rejection ps of
       Some e \<Rightarrow> Rejected e
     | None \<Rightarrow> settle ord ps (replicate (length ps) None))"

record report =
  propagated :: nat
  total :: nat
  percentage :: jsnum
  results :: "outcome list"

text \<open>
  \<^verbatim>\<open>checkPropagation\<close>, with the module constant \<^verbatim>\<open>DNS_SERVERS\<close> as the parameter
  \<open>targets\<close>. The lines it prints do not enter the value it returns and are left out.
\<close>

definition checkPropagation ::
  "host \<Rightarrow> world \<Rightarrow> server list \<Rightarrow> string \<Rightarrow> string \<Rightarrow> report completion" where
  "checkPropagation h w targets domain recordType =
    (case Promise_all (order w) (map (checkDNSServer h w domain recordType) targets) of
       Pending \<Rightarrow> Pending
     | Rejected e \<Rightarrow> Rejected e
     | Fulfilled rs \<Rightarrow>
         (let propagated = length (filter success rs);
              total = length rs;
              percentage = Math_round (js_mul (js_div propagated total) 100)
          in Fulfilled \<lparr>propagated = propagated, total = total,
                        percentage = percentage, results = rs\<rparr>))"

text \<open>
  What a run of the poll loop does, in order: a fan-out (with the attempt number and
  what it came to) or a timer set to a number of milliseconds.
\<close>

datatype event =
    is_FanOut: FanOut (attempt_of: int) (outcome_of: "report completion")
  | is_Wait: Wait (delay_of: int)

fun prepend :: "event list \<Rightarrow> event list \<times> 'a \<Rightarrow> event list \<times> 'a" where
  "prepend evs (tr, r) = (evs @ tr, r)"

text \<open>
  The \<^verbatim>\<open>for\<close> loop of \<^verbatim>\<open>monitorPropagation\<close> from a given value of \<^verbatim>\<open>attempt\<close>;
  \<open>check k\<close> is what \<^verbatim>\<open>await checkPropagation(domain, recordType)\<close> comes to at
  attempt \<open>k\<close>. A fan-out that rejects ends the loop with its exception, one that stays
  pending leaves the loop pending.
\<close>

function monitor_loop ::
  "(int \<Rightarrow> report completion) \<Rightarrow> int \<Rightarrow> int \<Rightarrow> int \<Rightarrow> event list \<times> bool completion" where
  "monitor_loop check intervalSeconds maxAttempts attempt =
    (if attempt \<le> maxAttempts then
       (case check attempt of
          Pending \<Rightarrow> ([FanOut attempt Pending], Pending)
        | Rejected e \<Rightarrow> ([FanOut attempt (Rejected e)], Rejected e)
        | Fulfilled rep \<Rightarrow>
            if percentage rep = Fin 100 then ([FanOut attempt (Fulfilled rep)], Fulfilled True)
            else prepend
                   (FanOut attempt (Fulfilled rep) #
                     (if attempt < maxAttempts then [Wait (intervalSeconds * 1000)] else []))
                   (monitor_loop check intervalSeconds maxAttempts (attempt + 1)))
     else ([], Fulfilled False))"
  by pat_completeness auto
termination
  by (relation "measure (\<lambda>(check, i, m, a). nat (m + 1 - a))") auto

declare monitor_loop.simps [simp del]

text \<open>
  A trace in which fan-outs and timers of \<open>d\<close> milliseconds alternate, beginning and
  ending with a fan-out.
\<close>

fun alternating :: "int \<Rightarrow> event list \<Rightarrow> bool" where
  "alternating d [] = True"
| "alternating d [e] = is_FanOut e"
| "alternating d (e # e' # es) = (is_FanOut e \<and> e' = Wait d \<and> es \<noteq> [] \<and> alternating d es)"

text \<open>\<^verbatim>\<open>monitorPropagation\<close>; \<open>ws k\<close> is the outside world during attempt \<open>k\<close>.\<close>

definition monitorPropagation ::
  "host \<Rightarrow> (int \<Rightarrow> world) \<Rightarrow> server list \<Rightarrow> string \<Rightarrow> string \<Rightarrow> int \<Rightarrow> int
    \<Rightarrow> event list \<times> bool completion" where
  "monitorPropagation h ws targets domain recordType intervalSeconds maxAttempts =
    monitor_loop (\<lambda>k. checkPropagation h (ws k) targets domain recordType)
      intervalSeconds maxAttempts 1"

text \<open>\<^verbatim>\<open>String.prototype.toUpperCase\<close> on ASCII.\<close>

definition upper :: "char \<Rightarrow> char" where
  "upper c = (if 97 \<le> (of_char c :: nat) \<and> (of_char c :: nat) \<le> 122
              then char_of ((of_char c :: nat) - 32) else c)"

definition toUpperCase :: "string \<Rightarrow> string" where
  "toUpperCase s = map upper s"

text \<open>
  \<^verbatim>\<open>main\<close>; \<open>args\<close> is \<^verbatim>\<open>process.argv.slice(2)\<close>. An absent or empty first argument
  gives the default domain, an absent or empty second one the kind \<^verbatim>\<open>'A'\<close>.
\<close>

definition main_domain :: "string list \<Rightarrow> string" where
  "main_domain args =
    (case args of [] \<Rightarrow> ''example.com'' | d # _ \<Rightarrow> if d \<noteq> [] then d else ''example.com'')"

definition main_recordType :: "string list \<Rightarrow> string" where
  "main_recordType args =
    (if 1 < length args
     then (let r = toUpperCase (args ! 1) in if r \<noteq> [] then r else ''A'')
     else ''A'')"

definition main_monitor :: "string list \<Rightarrow> bool" where
  "main_monitor args = (''--monitor'' \<in> set args)"

fun void :: "'a completion \<Rightarrow> unit completion" where
  "void Pending = Pending"
| "void (Rejected e) = Rejected e"
| "void (Fulfilled x) = Fulfilled ()"

definition main :: "host \<Rightarrow> (int \<Rightarrow> world) \<Rightarrow> string list \<Rightarrow> event list \<times> unit completion" where
  "main h ws args =
    (let domain = main_domain args; recordType = main_recordType args
     in if main_monitor args
        then (case monitorPropagation h ws DNS_SERVERS domain recordType 30 20 of
                (tr, r) \<Rightarrow> (tr, void r))
        else (let r = checkPropagation h (ws 1) DNS_SERVERS domain recordType
              in ([FanOut 1 r], void r)))"

section \<open>The DNSSEC test: signatures are valid (not expired)\<close>












section \<open>The spec's percentage\<close>

text \<open>
  \<open>round(100 * successCount / totalCount)\<close> as the specification writes it, in exact
  arithmetic with a tie going up, and the comparison of the computed percentage with it.
\<close>

definition exact_percentage :: "nat \<Rightarrow> nat \<Rightarrow> jsnum" where
  "exact_percentage p t = Fin (of_int \<lfloor>(100 * of_nat p / of_nat t :: rat) + 1/2\<rfloor>)"

definition percentage_agrees :: "nat \<Rightarrow> nat \<Rightarrow> bool" where
  "percentage_agrees p t = (Math_round (js_mul (js_div p t) 100) = exact_percentage p t)"

section \<open>Sample inputs\<close>

text \<open>A host whose \<^verbatim>\<open>JSON.stringify\<close> renders strings without escapes.\<close>

fun decimal :: "nat \<Rightarrow> string" where
  "decimal n = (if n < 10 then [char_of (48 + n)]
                else decimal (n div 10) @ [char_of (48 + n mod 10)])"

declare decimal.simps [simp del]

definition signed_decimal :: "int \<Rightarrow> string" where
  "signed_decimal n = (if n < 0 then CHR ''-'' # decimal (nat (- n)) else decimal (nat n))"

fun sample_json :: "jsval \<Rightarrow> string" where
  "sample_json (JStr s) = [CHR 0x22] @ s @ [CHR 0x22]"
| "sample_json (JNum n) = signed_decimal n"
| "sample_json (JArr xs) = ''['' @ join '','' (map sample_json xs) @ '']''"
| "sample_json (JObj kvs) =
     ''{'' @ join '','' (map (\<lambda>kv. [CHR 0x22] @ fst kv @ [CHR 0x22] @ '':'' @ sample_json (snd kv)) kvs)
       @ ''}''"

definition sample_host :: host where
  "sample_host = \<lparr>isIP = (\<lambda>s. s \<noteq> []), JSON_stringify = sample_json,
                   Number_toString = signed_decimal\<rparr>"

text \<open>
  A round in which only the first Google server answers A queries, every server answers
  MX queries, and the probes complete out of order.
\<close>

definition sample_world :: world where
  "sample_world =
    \<lparr>resolve = (\<lambda>m a d.
        if m = ''resolveMx'' then
          Inr (JArr [JObj [(''exchange'', JStr ''mx1.example.org''), (''priority'', JNum 10)],
                     JObj [(''exchange'', JStr ''mx2.example.org''), (''priority'', JNum 20)]])
        else if a = ''8.8.8.8'' then Inr (JArr [JStr ''93.184.216.34''])
        else Inl \<lparr>code = Some ''ENOTFOUND'', message = ''queryA ENOTFOUND example.org''\<rparr>),
     order = [5, 3, 1, 0, 2, 4]\<rparr>"

text \<open>A round in which every server answers, and one in which every query times out
  with an error that has no code.\<close>

definition world_up :: world where
  "world_up = \<lparr>resolve = (\<lambda>m a d. Inr (JArr [JStr ''93.184.216.34''])),
                order = [0, 1, 2, 3, 4, 5]\<rparr>"

definition world_down :: world where
  "world_down = \<lparr>resolve = (\<lambda>m a d. Inl \<lparr>code = None, message = ''timeout''\<rparr>),
                  order = [2, 1, 0, 5, 4, 3]\<rparr>"




section \<open>Promise.all\<close>

lemma settle_length:
  "settle ord ps vals = Fulfilled rs \<Longrightarrow> length rs = length vals"
  by (induction ord ps vals rule: settle.induct) (auto split: if_splits sum.splits)

lemma settle_fulfilled:
  assumes "length vals = length vs"
    and "\<forall>i<length vs. vals ! i = Some (vs ! i) \<or> (vals ! i = None \<and> i \<in> set ord)"
  shows "settle ord (map Inr vs) vals = Fulfilled vs"
  using assms
proof (induction ord arbitrary: vals)
  case Nil
  then have all: "\<forall>i<length vs. vals ! i = Some (vs ! i)" by simp
  have "list_all (\<lambda>v. v \<noteq> None) vals"
    unfolding list_all_length using all Nil.prems(1) by simp
  moreover have "map the vals = vs"
    by (rule nth_equalityI) (use all Nil.prems(1) in auto)
  ultimately show ?case by simp
next
  case (Cons i ord)
  show ?case
  proof (cases "i < length vs")
    case True
    have "settle ord (map Inr vs) (vals[i := Some (vs ! i)]) = Fulfilled vs"
    proof (rule Cons.IH)
      show "length (vals[i := Some (vs ! i)]) = length vs" using Cons.prems(1) by simp
      show "\<forall>j<length vs. vals[i := Some (vs ! i)] ! j = Some (vs ! j)
              \<or> (vals[i := Some (vs ! i)] ! j = None \<and> j \<in> set ord)"
      proof (intro allI impI)
        fix j assume j: "j < length vs"
        show "vals[i := Some (vs ! i)] ! j = Some (vs ! j)
              \<or> (vals[i := Some (vs ! i)] ! j = None \<and> j \<in> set ord)"
        proof (cases "j = i")
          case True
          then show ?thesis using j Cons.prems(1) by simp
        next
          case False
          then show ?thesis using Cons.prems(2) j by auto
        qed
      qed
    qed
    then show ?thesis using True by simp
  next
    case False
    have "settle ord (map Inr vs) vals = Fulfilled vs"
    proof (rule Cons.IH)
      show "length vals = length vs" by (rule Cons.prems(1))
      show "\<forall>j<length vs. vals ! j = Some (vs ! j) \<or> (vals ! j = None \<and> j \<in> set ord)"
        using Cons.prems(2) False by auto
    qed
    then show ?thesis using False by simp
  qed
qed

lemma first_rejection_none: "first_rejection (map Inr vs) = None"
  by (induction vs) simp_all

lemma Promise_all_settles:
  assumes "Promise_all ord ps = Fulfilled rs"
  shows "settle ord ps (replicate (length ps) None) = Fulfilled rs"
  using assms by (simp add: Promise_all_def split: option.splits)

lemma Promise_all_fulfilled:
  assumes "{..<length vs} \<subseteq> set ord"
  shows "Promise_all ord (map Inr vs) = Fulfilled vs"
proof -
  have "settle ord (map Inr vs) (replicate (length (map Inr vs)) None) = Fulfilled vs"
    by (rule settle_fulfilled) (use assms in auto)
  then show ?thesis by (simp add: Promise_all_def first_rejection_none)
qed

lemma Promise_all_length:
  "Promise_all ord ps = Fulfilled rs \<Longrightarrow> length rs = length ps"
  by (drule Promise_all_settles, drule settle_length) simp

lemma settle_sound:
  assumes "settle ord ps vals = Fulfilled rs"
    and "length vals = length ps"
    and "\<forall>i<length ps. \<forall>v. vals ! i = Some v \<longrightarrow> ps ! i = Inr v"
  shows "length rs = length ps \<and> (\<forall>i<length ps. ps ! i = Inr (rs ! i))"
  using assms
proof (induction ord ps vals rule: settle.induct)
  case (1 ps vals)
  then have full: "list_all (\<lambda>v. v \<noteq> None) vals" and rs: "rs = map the vals"
    by (auto split: if_splits)
  have "\<forall>i<length ps. ps ! i = Inr (rs ! i)"
  proof (intro allI impI)
    fix i assume i: "i < length ps"
    then have "vals ! i \<noteq> None" using full "1.prems"(2) by (simp add: list_all_length)
    then obtain v where v: "vals ! i = Some v" by auto
    then have "ps ! i = Inr v" using "1.prems"(3) i by blast
    then show "ps ! i = Inr (rs ! i)" using rs v i "1.prems"(2) by simp
  qed
  then show ?case using rs "1.prems"(2) by simp
next
  case (2 i rest ps vals)
  show ?case
  proof (cases "i < length ps")
    case False
    then show ?thesis using 2 by simp
  next
    case True
    then obtain v where v: "ps ! i = Inr v"
      using "2.prems"(1) by (cases "ps ! i") auto
    have "settle rest ps (vals[i := Some v]) = Fulfilled rs"
      using "2.prems"(1) True v by simp
    moreover have "length (vals[i := Some v]) = length ps" using "2.prems"(2) by simp
    moreover have "\<forall>j<length ps. \<forall>u. vals[i := Some v] ! j = Some u \<longrightarrow> ps ! j = Inr u"
      using "2.prems"(2,3) v True by (auto simp: nth_list_update split: if_splits)
    ultimately show ?thesis using "2.IH"(1) [OF True v] by blast
  qed
qed

lemma Promise_all_sound:
  assumes "Promise_all ord ps = Fulfilled rs"
  shows "length rs = length ps \<and> (\<forall>i<length ps. ps ! i = Inr (rs ! i))"
  using Promise_all_settles [OF assms]
  by (rule settle_sound) auto

section \<open>Probes and the fan-out\<close>

lemma checkDNSServer_returns:
  assumes "isIP h (ip srv)" and "resolveMethod rt = Method m"
  shows "checkDNSServer h w d rt srv =
    Inr (case resolve w m (ip srv) d of
           Inr result \<Rightarrow> \<lparr>server = name srv, success = True,
                  p_value = Some (format_value h result), p_error = None\<rparr>
         | Inl e \<Rightarrow> \<lparr>server = name srv, success = False,
                  p_value = None, p_error = Some (error_reason e)\<rparr>)"
  using assms by (simp add: checkDNSServer_def split: sum.splits)

lemma checkDNSServer_order [simp]:
  "checkDNSServer h (w\<lparr>order := ord\<rparr>) d rt srv = checkDNSServer h w d rt srv"
  by (simp add: checkDNSServer_def split: lookup.splits)

lemma checkPropagation_sound:
  assumes "checkPropagation h w targets d rt = Fulfilled rep"
  shows "length (results rep) = length targets"
    and "\<forall>i<length targets. checkDNSServer h w d rt (targets ! i) = Inr (results rep ! i)"
    and "propagated rep = length (filter success (results rep))"
    and "total rep = length targets"
    and "percentage rep = Math_round (js_mul (js_div (propagated rep) (total rep)) 100)"
proof -
  obtain rs where rs: "Promise_all (order w) (map (checkDNSServer h w d rt) targets) = Fulfilled rs"
    and rep: "rep = \<lparr>propagated = length (filter success rs), total = length rs,
       percentage = Math_round (js_mul (js_div (length (filter success rs)) (length rs)) 100),
       results = rs\<rparr>"
    using assms by (auto simp: checkPropagation_def Let_def split: completion.splits)
  from Promise_all_sound [OF rs]
  have len: "length rs = length targets"
    and nth: "\<forall>i<length targets. checkDNSServer h w d rt (targets ! i) = Inr (rs ! i)"
    by auto
  show "length (results rep) = length targets" using rep len by simp
  show "\<forall>i<length targets. checkDNSServer h w d rt (targets ! i) = Inr (results rep ! i)"
    using rep nth by simp
  show "propagated rep = length (filter success (results rep))" using rep by simp
  show "total rep = length targets" using rep len by simp
  show "percentage rep = Math_round (js_mul (js_div (propagated rep) (total rep)) 100)"
    using rep by simp
qed

lemma checkPropagation_fulfilled:
  assumes ips: "\<forall>s\<in>set targets. isIP h (ip s)"
    and rm: "resolveMethod rt = Method m"
    and ord: "\<forall>i<length targets. i \<in> set (order w)"
  shows "\<exists>rep. checkPropagation h w targets d rt = Fulfilled rep"
proof -
  let ?out = "\<lambda>srv. case resolve w m (ip srv) d of
           Inr result \<Rightarrow> \<lparr>server = name srv, success = True,
                  p_value = Some (format_value h result), p_error = None\<rparr>
         | Inl e \<Rightarrow> \<lparr>server = name srv, success = False,
                  p_value = None, p_error = Some (error_reason e)\<rparr>"
  have eq: "map (checkDNSServer h w d rt) targets = map Inr (map ?out targets)"
    using ips checkDNSServer_returns [OF _ rm] by simp
  have "Promise_all (order w) (map Inr (map ?out targets)) = Fulfilled (map ?out targets)"
    by (rule Promise_all_fulfilled) (use ord in auto)
  then have "Promise_all (order w) (map (checkDNSServer h w d rt) targets)
      = Fulfilled (map ?out targets)"
    by (simp only: eq)
  then show ?thesis by (simp add: checkPropagation_def Let_def)
qed

lemma report_entries:
  assumes "checkPropagation h w targets d rt = Fulfilled rep"
    and "\<forall>s\<in>set targets. isIP h (ip s)"
    and "resolveMethod rt = Method m"
    and "i < length targets"
  shows "results rep ! i =
    (case resolve w m (ip (targets ! i)) d of
       Inr result \<Rightarrow> \<lparr>server = name (targets ! i), success = True,
              p_value = Some (format_value h result), p_error = None\<rparr>
     | Inl e \<Rightarrow> \<lparr>server = name (targets ! i), success = False,
              p_value = None, p_error = Some (error_reason e)\<rparr>)"
proof -
  have "isIP h (ip (targets ! i))" using assms(2,4) by simp
  from checkDNSServer_returns [OF this assms(3), of w d]
  have "(Inr (results rep ! i) :: exn + outcome) =
      Inr (case resolve w m (ip (targets ! i)) d of
           Inr result \<Rightarrow> \<lparr>server = name (targets ! i), success = True,
                  p_value = Some (format_value h result), p_error = None\<rparr>
         | Inl e \<Rightarrow> \<lparr>server = name (targets ! i), success = False,
                  p_value = None, p_error = Some (error_reason e)\<rparr>)"
    using checkPropagation_sound(2) [OF assms(1)] assms(4) by simp
  then show ?thesis by (simp only: sum.inject)
qed

section \<open>Rounding to a double\<close>

lemma powi_bitlen_bounds:
  assumes "0 < (x::int)"
  shows "(2::rat) powi (bitlen x - 1) \<le> of_int x" and "of_int x < (2::rat) powi bitlen x"
proof -
  have b: "2 ^ nat (bitlen x - 1) \<le> x" "x < 2 ^ nat (bitlen x)"
    using bitlen_bounds [OF assms] by auto
  have ge1: "1 \<le> bitlen x" using assms by (auto simp: bitlen_alt_def)
  have "(2::rat) powi (bitlen x - 1) = of_int (2 ^ nat (bitlen x - 1))"
    using ge1 by (simp add: power_int_def)
  also have "\<dots> \<le> of_int x" using b(1) by (simp only: of_int_le_iff)
  finally show "(2::rat) powi (bitlen x - 1) \<le> of_int x" .
  have "of_int x < (of_int (2 ^ nat (bitlen x)) :: rat)" using b(2) by (simp only: of_int_less_iff)
  also have "\<dots> = 2 powi bitlen x" using ge1 by (simp add: power_int_def)
  finally show "of_int x < (2::rat) powi bitlen x" .
qed

lemma binade_bounds:
  assumes "0 < q"
  shows "2 powi binade q \<le> q" and "q < 2 powi (binade q + 1)"
proof -
  obtain n d where nd: "quotient_of q = (n, d)" by (cases "quotient_of q")
  have d: "0 < d" using nd by (rule quotient_of_denom_pos)
  have q: "q = of_int n / of_int d" using nd by (rule quotient_of_div)
  have n: "0 < n" using assms d q by (simp add: zero_less_divide_iff)
  let ?k = "bitlen n - bitlen d"
  have lo: "(2::rat) powi (?k - 1) \<le> q"
  proof -
    have "(2::rat) powi (?k - 1) = 2 powi (bitlen n - 1) / 2 powi bitlen d"
      by (simp add: power_int_diff)
    also have "\<dots> \<le> of_int n / 2 powi bitlen d"
      using powi_bitlen_bounds(1) [OF n] by (simp add: divide_right_mono)
    also have "\<dots> \<le> of_int n / of_int d"
      using powi_bitlen_bounds(2) [OF d] n d by (simp add: frac_le)
    finally show ?thesis using q by simp
  qed
  have hi: "q < (2::rat) powi (?k + 1)"
  proof -
    have "of_int n / of_int d < (2::rat) powi bitlen n / of_int d"
      using powi_bitlen_bounds(2) [OF n] d by (simp add: divide_strict_right_mono)
    also have "\<dots> \<le> 2 powi bitlen n / 2 powi (bitlen d - 1)"
      using powi_bitlen_bounds(1) [OF d] by (simp add: frac_le)
    also have "\<dots> = 2 powi (?k + 1)"
      by (simp add: power_int_diff power_int_add)
    finally show ?thesis using q by simp
  qed
  have "2 powi binade q \<le> q \<and> q < 2 powi (binade q + 1)"
  proof (cases "2 powi ?k \<le> q")
    case True
    then have "binade q = ?k" by (simp add: binade_def nd)
    then show ?thesis using True hi by simp
  next
    case False
    then have "binade q = ?k - 1" by (simp add: binade_def nd)
    then show ?thesis using False lo by simp
  qed
  then show "2 powi binade q \<le> q" and "q < 2 powi (binade q + 1)" by auto
qed

lemma binade_less:
  assumes "0 < q" and "q < 2 powi n"
  shows "binade q < n"
proof (rule ccontr)
  assume "\<not> binade q < n"
  then have "n \<le> binade q" by simp
  then have "(2::rat) powi n \<le> 2 powi binade q" by (intro power_int_increasing) auto
  then show False using binade_bounds(1) [OF assms(1)] assms(2) by simp
qed

lemma round_half_even_le:
  assumes "m \<le> of_int N"
  shows "round_half_even m \<le> N"
proof -
  have f: "\<lfloor>m\<rfloor> \<le> N" using assms by (simp add: floor_le_iff)
  show ?thesis
  proof (cases "m = of_int \<lfloor>m\<rfloor>")
    case True
    then have "m - of_int \<lfloor>m\<rfloor> < 1/2" by simp
    then show ?thesis using f by (simp add: round_half_even_def Let_def)
  next
    case False
    have "of_int \<lfloor>m\<rfloor> < m"
      by (rule order.not_eq_order_implies_strict [OF not_sym [OF False] of_int_floor_le])
    then have "of_int \<lfloor>m\<rfloor> < (of_int N :: rat)" using assms by simp
    then have "\<lfloor>m\<rfloor> < N" by (simp only: of_int_less_iff)
    then show ?thesis by (simp add: round_half_even_def Let_def)
  qed
qed

lemma round_half_even_nonneg:
  assumes "0 \<le> m"
  shows "0 \<le> round_half_even m"
proof -
  have "0 \<le> \<lfloor>m\<rfloor>" using assms by simp
  then show ?thesis by (simp add: round_half_even_def Let_def)
qed

lemma fl_nonneg: "0 \<le> fl q"
  by (simp add: fl_def Let_def round_half_even_nonneg)

lemma fl_le:
  assumes "0 < q" and "q \<le> of_int N * 2 powi (binade q - 52)"
  shows "fl q \<le> of_int N * 2 powi (binade q - 52)"
proof -
  let ?u = "(2::rat) powi (binade q - 52)"
  have u: "0 < ?u" by simp
  have "q / ?u \<le> of_int N" using assms(2) u by (simp add: pos_divide_le_eq)
  then have "round_half_even (q / ?u) \<le> N" by (rule round_half_even_le)
  then have "(of_int (round_half_even (q / ?u)) :: rat) \<le> of_int N" by (simp only: of_int_le_iff)
  then have "of_int (round_half_even (q / ?u)) * ?u \<le> of_int N * ?u"
    using u by (simp add: mult_right_mono)
  then show ?thesis using assms(1) by (simp add: fl_def Let_def)
qed

lemma fl_le_pow2_multiple:
  assumes "0 < q" and "q \<le> of_int c * 2 powi n" and "q < 2 powi (j + 1)" and "j - 52 \<le> n"
  shows "fl q \<le> of_int c * 2 powi n"
proof -
  have e: "binade q \<le> j" using binade_less [OF assms(1,3)] by simp
  define s where "s = n - (binade q - 52)"
  have s: "0 \<le> s" using e assms(4) by (simp add: s_def)
  have "(2::rat) powi n = 2 powi s * 2 powi (binade q - 52)"
    by (simp add: s_def flip: power_int_add)
  moreover have "(2::rat) powi s = of_int (2 ^ nat s)" using s by (simp add: power_int_def)
  ultimately have eq: "of_int c * (2::rat) powi n = of_int (c * 2 ^ nat s) * 2 powi (binade q - 52)"
    by (simp only: of_int_mult mult.assoc)
  have "q \<le> of_int (c * 2 ^ nat s) * 2 powi (binade q - 52)"
    using assms(2) by (simp only: eq)
  then have "fl q \<le> of_int (c * 2 ^ nat s) * 2 powi (binade q - 52)"
    by (rule fl_le [OF assms(1)])
  then show ?thesis by (simp only: eq)
qed

lemma fl_le_1:
  assumes "q \<le> 1"
  shows "fl q \<le> 1"
proof (cases "0 < q")
  case True
  have "q < 2 powi (0 + 1)" using assms by simp
  then show ?thesis using fl_le_pow2_multiple [OF True, of 1 0 0] assms by simp
next
  case False
  then show ?thesis by (simp add: fl_def)
qed

lemma fl_le_100:
  assumes "q \<le> 100"
  shows "fl q \<le> 100"
proof (cases "0 < q")
  case True
  have "q < 2 powi (6 + 1)" using assms by simp
  then show ?thesis using fl_le_pow2_multiple [OF True, of 100 0 6] assms by simp
next
  case False
  then show ?thesis by (simp add: fl_def)
qed

lemma fl_1: "fl 1 = 1"
  by code_simp

lemma fl_100: "fl 100 = 100"
  by code_simp

lemma percentage_range:
  assumes "0 < t" and "p \<le> t"
  shows "\<exists>k. Math_round (js_mul (js_div p t) 100) = Fin (of_int k) \<and> 0 \<le> k \<and> k \<le> 100"
proof -
  let ?x = "fl (of_nat p / of_nat t)"
  have "(of_nat p / of_nat t :: rat) \<le> 1" using assms by simp
  then have x1: "?x \<le> 1" by (rule fl_le_1)
  have x0: "0 \<le> ?x" by (rule fl_nonneg)
  let ?y = "fl (?x * 100)"
  have "?x * 100 \<le> 100" using x1 by simp
  then have y100: "?y \<le> 100" by (rule fl_le_100)
  have y0: "0 \<le> ?y" by (rule fl_nonneg)
  have "0 \<le> \<lfloor>?y + 1/2\<rfloor>" using y0 by simp
  moreover have "\<lfloor>?y + 1/2\<rfloor> \<le> 100" using y100 by (simp add: floor_le_iff)
  ultimately show ?thesis using assms(1) by (simp add: js_div_def)
qed

lemma percentage_none:
  assumes "0 < t"
  shows "Math_round (js_mul (js_div 0 t) 100) = Fin 0"
  using assms by (simp add: js_div_def fl_def floor_eq_iff)

lemma percentage_all:
  assumes "0 < t"
  shows "Math_round (js_mul (js_div t t) 100) = Fin 100"
  using assms by (simp add: js_div_def fl_1 fl_100 floor_eq_iff)

lemma frac_binade_bounds:
  fixes n d :: int
  assumes n: "0 < n" and d: "0 < d"
  defines "k \<equiv> bitlen n - bitlen d"
  shows "(2::rat) powi (k - 1) \<le> of_int n / of_int d" and "of_int n / of_int d < (2::rat) powi (k + 1)"
proof -
  have "(2::rat) powi (k - 1) = 2 powi (bitlen n - 1) / 2 powi bitlen d"
    by (simp add: k_def power_int_diff)
  also have "\<dots> \<le> of_int n / 2 powi bitlen d"
    using powi_bitlen_bounds(1) [OF n] by (simp add: divide_right_mono)
  also have "\<dots> \<le> of_int n / of_int d"
    using powi_bitlen_bounds(2) [OF d] n d by (simp add: frac_le)
  finally show "(2::rat) powi (k - 1) \<le> of_int n / of_int d" .
  have "of_int n / of_int d < (2::rat) powi bitlen n / of_int d"
    using powi_bitlen_bounds(2) [OF n] d by (simp add: divide_strict_right_mono)
  also have "\<dots> \<le> 2 powi bitlen n / 2 powi (bitlen d - 1)"
    using powi_bitlen_bounds(1) [OF d] by (simp add: frac_le)
  also have "\<dots> = 2 powi (k + 1)"
    by (simp add: k_def power_int_diff power_int_add)
  finally show "of_int n / of_int d < (2::rat) powi (k + 1)" .
qed

lemma binade_unique:
  assumes "2 powi e \<le> q" and "q < 2 powi (e + 1)"
  shows "binade q = e"
proof -
  have q: "0 < q" using assms(1) by (rule less_le_trans [rotated]) simp
  have "binade q < e + 1" using q assms(2) by (rule binade_less)
  moreover have "e < binade q + 1"
  proof (rule ccontr)
    assume "\<not> e < binade q + 1"
    then have "binade q + 1 \<le> e" by simp
    then have "(2::rat) powi (binade q + 1) \<le> 2 powi e" by (intro power_int_increasing) auto
    then show False using binade_bounds(2) [OF q] assms(1) by simp
  qed
  ultimately show ?thesis by simp
qed

lemma binade_frac:
  fixes n d :: int
  assumes n: "0 < n" and d: "0 < d"
  shows "binade (of_int n / of_int d) =
    (if 2 powi (bitlen n - bitlen d) \<le> (of_int n / of_int d :: rat)
     then bitlen n - bitlen d else bitlen n - bitlen d - 1)"
proof (cases "2 powi (bitlen n - bitlen d) \<le> (of_int n / of_int d :: rat)")
  case True
  then show ?thesis using frac_binade_bounds(2) [OF n d] by (simp add: binade_unique)
next
  case False
  then have "of_int n / of_int d < (2::rat) powi (bitlen n - bitlen d - 1 + 1)" by simp
  then show ?thesis using False frac_binade_bounds(1) [OF n d] by (simp add: binade_unique)
qed

lemma binade_numeral_frac:
  "binade (numeral a / numeral b) =
    (if 2 powi (bitlen (numeral a) - bitlen (numeral b)) \<le> (numeral a / numeral b :: rat)
     then bitlen (numeral a) - bitlen (numeral b) else bitlen (numeral a) - bitlen (numeral b) - 1)"
  using binade_frac [of "numeral a" "numeral b"] by simp

lemma binade_one_frac:
  "binade (1 / numeral b) =
    (if 2 powi (1 - bitlen (numeral b)) \<le> (1 / numeral b :: rat)
     then 1 - bitlen (numeral b) else 1 - bitlen (numeral b) - 1)"
  using binade_frac [of 1 "numeral b"] by (simp add: compute_bitlen)

lemma binade_numeral:
  "binade (numeral a) = bitlen (numeral a) - 1"
  using binade_frac [of "numeral a" 1] powi_bitlen_bounds [of "numeral a"]
  by (simp add: compute_bitlen [of 1] power_int_diff split: if_splits)

lemma bitlen_numeral:
  "bitlen (numeral a) = bitlen (numeral a div 2) + 1"
  "bitlen 1 = 1"
  by (simp_all add: compute_bitlen [of "numeral a"] compute_bitlen [of 1])

lemma floor_rat_numeral:
  "\<lfloor>numeral a / numeral b :: rat\<rfloor> = numeral a div numeral b"
  "\<lfloor>1 / numeral b :: rat\<rfloor> = 1 div numeral b"
  using floor_divide_of_int_eq [of "numeral a" "numeral b", where ?'a = rat]
    floor_divide_of_int_eq [of 1 "numeral b", where ?'a = rat]
  by simp_all

lemma binade_1: "binade 1 = 0"
  by (rule binade_unique) simp_all

lemmas fl_eval = binade_1 fl_def Let_def binade_numeral_frac binade_one_frac binade_numeral bitlen_numeral
  round_half_even_def js_div_def floor_rat_numeral

text \<open>Rules that enumerate the numbers up to a numeral, and those that evaluate a
  percentage.\<close>

lemma all_le_numeral:
  "(\<forall>p\<le>numeral n. P (p::nat)) \<longleftrightarrow> P (numeral n) \<and> (\<forall>p\<le>pred_numeral n. P p)"
proof -
  have "(p \<le> numeral n) = (p = numeral n \<or> p \<le> pred_numeral n)" for p :: nat
    by (auto simp: numeral_eq_Suc)
  then show ?thesis by auto
qed

lemma all_le_one: "(\<forall>p\<le>(1::nat). P p) \<longleftrightarrow> P 1 \<and> P 0"
proof -
  have "(p \<le> 1) = (p = 1 \<or> p = 0)" for p :: nat by auto
  then show ?thesis by auto
qed

lemma all_le_zero: "(\<forall>p\<le>(0::nat). P p) \<longleftrightarrow> P 0"
  by simp

lemmas enumerate_le = all_le_numeral all_le_one all_le_zero pred_numeral_simps BitM.simps
  numeral_One

lemmas percentage_eval = percentage_agrees_def exact_percentage_def fl_eval fl_1 fl_100

text \<open>
  Each rounding to a double moves a value by at most half a unit in the last place, so
  the computed product lies within \<open>200 / 2^53\<close> of the exact percentage. The exact
  percentage plus one half is a fraction with denominator \<open>2 * total\<close>: unless it is an
  integer (a tie) it is too far from the next integers for that error to change its floor.
\<close>

lemma round_half_even_error: "\<bar>of_int (round_half_even m) - m\<bar> \<le> 1 / 2"
proof -
  have lo: "of_int \<lfloor>m\<rfloor> \<le> m" and hi: "m < of_int \<lfloor>m\<rfloor> + 1" by linarith+
  consider "m - of_int \<lfloor>m\<rfloor> < 1 / 2" | "1 / 2 < m - of_int \<lfloor>m\<rfloor>" | "m - of_int \<lfloor>m\<rfloor> = 1 / 2"
    by linarith
  then show ?thesis
  proof cases
    case 1
    then have "round_half_even m = \<lfloor>m\<rfloor>" by (simp add: round_half_even_def Let_def)
    then show ?thesis using 1 lo by simp
  next
    case 2
    then have "\<not> m - of_int \<lfloor>m\<rfloor> < 1 / 2" by simp
    then have "round_half_even m = \<lfloor>m\<rfloor> + 1" using 2 by (simp add: round_half_even_def Let_def)
    then show ?thesis using 2 hi by simp
  next
    case 3
    then have "round_half_even m = \<lfloor>m\<rfloor> \<or> round_half_even m = \<lfloor>m\<rfloor> + 1"
      by (simp add: round_half_even_def Let_def)
    then show ?thesis using 3 by auto
  qed
qed

lemma fl_error:
  assumes "0 < q"
  shows "\<bar>fl q - q\<bar> \<le> q / 2 ^ 53"
proof -
  define u :: rat where "u = 2 powi (binade q - 52)"
  have u0: "0 < u" by (simp add: u_def)
  have "u = 2 powi binade q / 2 ^ 52" by (simp add: u_def power_int_diff)
  then have ub: "u \<le> q / 2 ^ 52"
    using binade_bounds(1) [OF assms] by (simp add: divide_right_mono)
  have flq: "fl q = of_int (round_half_even (q / u)) * u"
    using assms by (simp add: fl_def Let_def u_def)
  have "fl q - q = (of_int (round_half_even (q / u)) - q / u) * u"
    using u0 by (simp add: flq left_diff_distrib)
  then have "\<bar>fl q - q\<bar> = \<bar>of_int (round_half_even (q / u)) - q / u\<bar> * u"
    using u0 by (simp add: abs_mult)
  also have "\<dots> \<le> (1 / 2) * u"
    using u0 by (intro mult_right_mono round_half_even_error) simp
  also have "\<dots> \<le> (1 / 2) * (q / 2 ^ 52)" using ub by simp
  also have "\<dots> = q / 2 ^ 53" by simp
  finally show ?thesis .
qed

lemma product_error:
  assumes "0 < t" and "p \<le> t"
  shows "\<bar>fl (fl (of_nat p / of_nat t) * 100) - 100 * of_nat p / of_nat t\<bar> \<le> 200 / 2 ^ 53"
proof (cases "p = 0")
  case True
  then show ?thesis by (simp add: fl_def)
next
  case False
  define q :: rat where "q = of_nat p / of_nat t"
  have q0: "0 < q" using False assms(1) by (simp add: q_def)
  have q1: "q \<le> 1" using assms by (simp add: q_def)
  define x where "x = fl q"
  have ex: "\<bar>x - q\<bar> \<le> q / 2 ^ 53" unfolding x_def by (rule fl_error [OF q0])
  have "q / 2 ^ 53 < q" using q0 by (simp add: field_simps)
  then have x0: "0 < x" using ex by linarith
  have x1: "x \<le> 1" unfolding x_def by (rule fl_le_1 [OF q1])
  have w0: "0 < x * 100" using x0 by simp
  define c :: rat where "c = 100 / 2 ^ 53"
  have "\<bar>fl (x * 100) - x * 100\<bar> \<le> x * 100 / 2 ^ 53" by (rule fl_error [OF w0])
  also have "\<dots> \<le> 100 / 2 ^ 53" using x1 by (simp add: divide_right_mono)
  finally have ey: "\<bar>fl (x * 100) - x * 100\<bar> \<le> c" by (simp only: c_def)
  have "q / 2 ^ 53 \<le> 1 / 2 ^ 53" using q1 by (simp add: divide_right_mono)
  then have ex': "\<bar>x - q\<bar> \<le> 1 / 2 ^ 53" using ex by linarith
  have "\<bar>x * 100 - 100 * q\<bar> = 100 * \<bar>x - q\<bar>" by (simp add: abs_if)
  also have "\<dots> \<le> 100 * (1 / 2 ^ 53)" using ex' by (intro mult_left_mono) simp_all
  also have "\<dots> = c" by (simp add: c_def)
  finally have ew: "\<bar>x * 100 - 100 * q\<bar> \<le> c" .
  have "\<bar>fl (x * 100) - 100 * q\<bar> \<le> c + c" using ey ew by linarith
  moreover have "c + c = 200 / 2 ^ 53" by (simp add: c_def)
  ultimately have "\<bar>fl (x * 100) - 100 * q\<bar> \<le> 200 / 2 ^ 53" by (simp only:)
  then show ?thesis by (simp add: x_def q_def)
qed

lemma floor_near_fraction:
  fixes N D :: int and Y :: rat
  assumes "0 < D" and "N mod D \<noteq> 0" and "\<bar>Y - of_int N / of_int D\<bar> < 1 / of_int D"
  shows "\<lfloor>Y\<rfloor> = N div D"
proof -
  define n r where "n = N div D" and "r = N mod D"
  have N: "N = D * n + r" by (simp add: n_def r_def)
  have "0 \<le> r" unfolding r_def by (rule pos_mod_sign [OF assms(1)])
  moreover have "r < D" unfolding r_def by (rule pos_mod_bound [OF assms(1)])
  moreover have "r \<noteq> 0" unfolding r_def by (rule assms(2))
  ultimately have r: "1 \<le> r" "r + 1 \<le> D" by linarith+
  have D0: "(0::rat) < of_int D" using assms(1) by simp
  have frac: "of_int N / (of_int D :: rat) = of_int n + of_int r / of_int D"
    using D0 by (simp add: N field_simps)
  have "(of_int 1 :: rat) \<le> of_int r" using r(1) by (simp only: of_int_le_iff)
  then have "(1::rat) \<le> of_int r" by simp
  then have lo: "(1::rat) / of_int D \<le> of_int r / of_int D" using D0 by (simp add: divide_right_mono)
  have "(of_int (r + 1) :: rat) \<le> of_int D" using r(2) by (simp only: of_int_le_iff)
  then have "(of_int r + 1 :: rat) \<le> of_int D" by simp
  then have "(of_int r + 1) / of_int D \<le> (1::rat)" using D0 by (simp add: pos_divide_le_eq)
  then have hi: "of_int r / of_int D + 1 / of_int D \<le> (1::rat)" by (simp add: add_divide_distrib)
  have "of_int n \<le> Y" using assms(3) frac lo by linarith
  moreover have "Y < of_int n + 1" using assms(3) frac hi by linarith
  ultimately show ?thesis unfolding n_def [symmetric] by (rule floor_unique)
qed

lemma no_tie_agrees:
  assumes "0 < t" and "t < 2 ^ 32" and "p \<le> t" and "(200 * p + t) mod (2 * t) \<noteq> 0"
  shows "percentage_agrees p t"
proof -
  define y where "y = fl (fl (of_nat p / of_nat t) * 100)"
  define N D :: int where "N = int (200 * p + t)" and "D = int (2 * t)"
  have D0: "0 < D" using assms(1) by (simp add: D_def)
  have nm: "N mod D \<noteq> 0"
    using assms(4) unfolding N_def D_def by (simp only: flip: of_nat_mod)
  have t0: "(0::rat) < of_nat t" using assms(1) by simp
  have frac: "(of_int N / of_int D :: rat) = 100 * of_nat p / of_nat t + 1 / 2"
    using t0 by (simp add: N_def D_def field_simps)
  have "(of_int D :: rat) < 2 ^ 33"
  proof -
    have "D < 2 ^ 33" using assms(2) by (simp add: D_def)
    then have "(of_int D :: rat) < of_int (2 ^ 33)" by (simp only: of_int_less_iff)
    then show ?thesis by simp
  qed
  then have "(1::rat) / 2 ^ 33 < 1 / of_int D" using D0 by (simp add: frac_less2)
  moreover have "(200::rat) / 2 ^ 53 < 1 / 2 ^ 33" by simp
  ultimately have small: "(200::rat) / 2 ^ 53 < 1 / of_int D" by linarith
  have "\<bar>(y + 1 / 2) - of_int N / of_int D\<bar> = \<bar>y - 100 * of_nat p / of_nat t\<bar>"
    by (simp add: frac)
  also have "\<dots> \<le> 200 / 2 ^ 53" unfolding y_def by (rule product_error [OF assms(1,3)])
  finally have "\<bar>(y + 1 / 2) - of_int N / of_int D\<bar> < 1 / of_int D" using small by linarith
  from floor_near_fraction [OF D0 nm this] have fy: "\<lfloor>y + 1 / 2\<rfloor> = N div D" .
  have "\<lfloor>(100 * of_nat p / of_nat t :: rat) + 1 / 2\<rfloor> = \<lfloor>(of_int N / of_int D :: rat)\<rfloor>"
    by (simp only: frac)
  also have "\<dots> = N div D" by (rule floor_divide_of_int_eq)
  finally have fz: "\<lfloor>(100 * of_nat p / of_nat t :: rat) + 1 / 2\<rfloor> = N div D" .
  show ?thesis
    using assms(1) fy fz
    by (simp add: percentage_agrees_def exact_percentage_def js_div_def y_def)
qed

text \<open>
  A tie needs a total that is a multiple of 8; below 40 the ties are evaluated, each being
  computed without error.
\<close>

lemma tie_multiple_of_8:
  assumes "(200 * p + t) mod (2 * t) = 0" and "0 < (t::nat)"
  shows "8 dvd t"
proof -
  from assms(1) have "2 * t dvd 200 * p + t" by (simp only: dvd_eq_mod_eq_0)
  then obtain k where k: "200 * p + t = 2 * t * k" by (auto simp: dvd_def)
  have "k \<noteq> 0"
  proof
    assume "k = 0"
    then have "200 * p + t = 0" using k by simp
    then show False using assms(2) by simp
  qed
  then obtain j where j: "k = Suc j" by (cases k) auto
  have "200 * p = t * (2 * j + 1)" using k unfolding j by (simp add: algebra_simps)
  moreover have "(8::nat) dvd 200 * p" by simp
  ultimately have d: "8 dvd t * (2 * j + 1)" by simp
  have "coprime (2::nat) (2 * j + 1)" by simp
  then have "coprime ((2::nat) ^ 3) (2 * j + 1)" by (simp only: coprime_power_left_iff) simp
  then have "coprime (8::nat) (2 * j + 1)" by simp
  then show ?thesis using d by (simp only: coprime_dvd_mult_left_iff)
qed

lemma ties_8:
  "\<forall>p\<le>8. (200 * p + 8) mod (2 * 8) = 0 \<longrightarrow> percentage_agrees p 8"
  apply (simp only: enumerate_le)
  apply simp
  apply (simp add: percentage_eval)
  done

lemma ties_16:
  "\<forall>p\<le>16. (200 * p + 16) mod (2 * 16) = 0 \<longrightarrow> percentage_agrees p 16"
  apply (simp only: enumerate_le)
  apply simp
  apply (simp add: percentage_eval)
  done

lemma ties_24:
  "\<forall>p\<le>24. (200 * p + 24) mod (2 * 24) = 0 \<longrightarrow> percentage_agrees p 24"
  apply (simp only: enumerate_le)
  apply simp
  apply (simp add: percentage_eval)
  done

lemma ties_32:
  "\<forall>p\<le>32. (200 * p + 32) mod (2 * 32) = 0 \<longrightarrow> percentage_agrees p 32"
  apply (simp only: enumerate_le)
  apply simp
  apply (simp add: percentage_eval)
  done

lemma below_forty_agrees:
  assumes "0 < t" and "t < 40" and "p \<le> t"
  shows "percentage_agrees p t"
proof (cases "(200 * p + t) mod (2 * t) = 0")
  case False
  have "t < 2 ^ 32" using assms(2) by simp
  then show ?thesis using assms(1,3) False by (intro no_tie_agrees)
next
  case True
  then have "8 dvd t" using assms(1) by (rule tie_multiple_of_8)
  then obtain j where "t = 8 * j" by (auto simp: dvd_def)
  then have "j = 1 \<or> j = 2 \<or> j = 3 \<or> j = 4" using assms(1,2) by arith
  then consider "t = 8" | "t = 16" | "t = 24" | "t = 32" using \<open>t = 8 * j\<close> by auto
  then show ?thesis
  proof cases
    case 1
    have "p \<le> 8" using assms(3) unfolding 1 .
    moreover have "(200 * p + 8) mod (2 * 8) = 0" using True unfolding 1 .
    ultimately have "percentage_agrees p 8" by (rule ties_8 [rule_format])
    then show ?thesis unfolding 1 .
  next
    case 2
    have "p \<le> 16" using assms(3) unfolding 2 .
    moreover have "(200 * p + 16) mod (2 * 16) = 0" using True unfolding 2 .
    ultimately have "percentage_agrees p 16" by (rule ties_16 [rule_format])
    then show ?thesis unfolding 2 .
  next
    case 3
    have "p \<le> 24" using assms(3) unfolding 3 .
    moreover have "(200 * p + 24) mod (2 * 24) = 0" using True unfolding 3 .
    ultimately have "percentage_agrees p 24" by (rule ties_24 [rule_format])
    then show ?thesis unfolding 3 .
  next
    case 4
    have "p \<le> 32" using assms(3) unfolding 4 .
    moreover have "(200 * p + 32) mod (2 * 32) = 0" using True unfolding 4 .
    ultimately have "percentage_agrees p 32" by (rule ties_32 [rule_format])
    then show ?thesis unfolding 4 .
  qed
qed

text \<open>
  The product is computed in binary64, so a tie can be lost: with 23 of 40 the exact
  percentage is 57.5 and rounds to 58, while \<^verbatim>\<open>(23 / 40) * 100\<close> is
  57.49999999999999 and rounds to 57. A fan-out over the declared targets never has such
  counts.
\<close>

lemma tie_lost_at_forty:
  "Math_round (js_mul (js_div 23 40) 100) = Fin 57 \<and> exact_percentage 23 40 = Fin 58"
  by (simp add: percentage_eval)

section \<open>Reports\<close>

lemma Promise_all_no_promises:
  "Promise_all ord ([] :: (exn + 'a) list) = Fulfilled []"
proof -
  have "settle ord' ([] :: (exn + 'a) list) [] = Fulfilled []" for ord'
    by (induction ord') simp_all
  then show ?thesis by (simp add: Promise_all_def)
qed

lemma Promise_all_rejects_first:
  "first_rejection ps = Some e \<Longrightarrow> Promise_all ord ps = Rejected e"
  by (simp add: Promise_all_def)

lemma report_counts:
  assumes "checkPropagation h w targets d rt = Fulfilled rep"
  shows "propagated rep \<le> total rep"
proof -
  have "length (filter success (results rep)) \<le> length (results rep)"
    by (rule length_filter_le)
  then show ?thesis using checkPropagation_sound(1,3,4) [OF assms] by simp
qed

lemma report_percentage_range:
  assumes "checkPropagation h w targets d rt = Fulfilled rep" and "targets \<noteq> []"
  shows "\<exists>k. percentage rep = Fin (of_int k) \<and> 0 \<le> k \<and> k \<le> 100"
proof -
  have "0 < total rep" using checkPropagation_sound(4) [OF assms(1)] assms(2) by simp
  from percentage_range [OF this report_counts [OF assms(1)]]
  show ?thesis using checkPropagation_sound(5) [OF assms(1)] by simp
qed

lemma report_percentage_none:
  assumes "checkPropagation h w targets d rt = Fulfilled rep" and "targets \<noteq> []"
    and "\<forall>r\<in>set (results rep). \<not> success r"
  shows "percentage rep = Fin 0"
proof -
  have "filter success (results rep) = []" using assms(3) by (simp add: filter_empty_conv)
  then have "propagated rep = 0" using checkPropagation_sound(3) [OF assms(1)] by simp
  moreover have "0 < total rep" using checkPropagation_sound(4) [OF assms(1)] assms(2) by simp
  ultimately show ?thesis
    using checkPropagation_sound(5) [OF assms(1)] percentage_none by simp
qed

lemma report_percentage_all:
  assumes "checkPropagation h w targets d rt = Fulfilled rep" and "targets \<noteq> []"
    and "\<forall>r\<in>set (results rep). success r"
  shows "percentage rep = Fin 100"
proof -
  have "filter success (results rep) = results rep" using assms(3) by simp
  then have "propagated rep = total rep" using checkPropagation_sound(1,3,4) [OF assms(1)] by simp
  moreover have "0 < total rep" using checkPropagation_sound(4) [OF assms(1)] assms(2) by simp
  ultimately show ?thesis
    using checkPropagation_sound(5) [OF assms(1)] percentage_all by simp
qed

section \<open>The poll loop\<close>

lemma monitor_loop_first:
  assumes "a \<le> M"
  shows "\<exists>tr. fst (monitor_loop check I M a) = FanOut a (check a) # tr"
  using assms
  by (subst monitor_loop.simps)
     (cases "monitor_loop check I M (a + 1)"; auto split: completion.splits)

lemma monitor_loop_alternating:
  "alternating (I * 1000) (fst (monitor_loop check I M a))"
proof (induction check I M a rule: monitor_loop.induct)
  case (1 check I M a)
  show ?case
  proof (cases "a \<le> M")
    case False
    then show ?thesis by (subst monitor_loop.simps) simp
  next
    case le: True
    show ?thesis
    proof (cases "check a")
      case Pending
      then show ?thesis using le by (subst monitor_loop.simps) simp
    next
      case (Rejected e)
      then show ?thesis using le by (subst monitor_loop.simps) simp
    next
      case (Fulfilled rep)
      show ?thesis
      proof (cases "percentage rep = Fin 100")
        case True
        then show ?thesis using le Fulfilled by (subst monitor_loop.simps) simp
      next
        case ne: False
        obtain tr r where rest: "monitor_loop check I M (a + 1) = (tr, r)"
          by (cases "monitor_loop check I M (a + 1)")
        have IH: "alternating (I * 1000) tr"
          using "1.IH" [OF le Fulfilled ne] rest by simp
        show ?thesis
        proof (cases "a < M")
          case True
          then have "a + 1 \<le> M" by simp
          from monitor_loop_first [OF this, of check I]
          obtain tr' where "tr = FanOut (a + 1) (check (a + 1)) # tr'" using rest by auto
          then show ?thesis using le Fulfilled ne rest IH True
            by (subst monitor_loop.simps) simp
        next
          case False
          then have "\<not> a + 1 \<le> M" using le by simp
          then have "monitor_loop check I M (a + 1) = ([], Fulfilled False)"
            by (subst monitor_loop.simps) simp
          then show ?thesis using le Fulfilled ne False
            by (subst monitor_loop.simps) simp
        qed
      qed
    qed
  qed
qed

lemma alternating_counts:
  "alternating d tr \<Longrightarrow>
    length (filter is_FanOut tr) = (if tr = [] then 0 else Suc (length (filter is_Wait tr)))
    \<and> filter is_Wait tr = replicate (length (filter is_Wait tr)) (Wait d)
    \<and> (tr \<noteq> [] \<longrightarrow> is_FanOut (last tr))"
  by (induction d tr rule: alternating.induct) (auto split: if_splits)

lemma monitor_loop_exhausted:
  assumes "\<forall>k. a \<le> k \<and> k \<le> M \<longrightarrow> check k = Fulfilled (reps k) \<and> percentage (reps k) \<noteq> Fin 100"
  shows "snd (monitor_loop check I M a) = Fulfilled False
    \<and> map attempt_of (filter is_FanOut (fst (monitor_loop check I M a))) = [a..M]"
  using assms
proof (induction check I M a rule: monitor_loop.induct)
  case (1 check I M a)
  show ?case
  proof (cases "a \<le> M")
    case False
    then show ?thesis by (subst (1 2) monitor_loop.simps) simp
  next
    case le: True
    then have here: "check a = Fulfilled (reps a)" "percentage (reps a) \<noteq> Fin 100"
      using "1.prems" by auto
    obtain tr r where rest: "monitor_loop check I M (a + 1) = (tr, r)"
      by (cases "monitor_loop check I M (a + 1)")
    have "snd (monitor_loop check I M (a + 1)) = Fulfilled False
      \<and> map attempt_of (filter is_FanOut (fst (monitor_loop check I M (a + 1)))) = [a + 1..M]"
      by (rule "1.IH" [OF le here]) (use "1.prems" in auto)
    then have r: "r = Fulfilled False" and tr: "map attempt_of (filter is_FanOut tr) = [a + 1..M]"
      using rest by auto
    have up: "[a..M] = a # [a + 1..M]" using le by (simp add: upto_rec1)
    show ?thesis using le here rest r tr up
      by (subst (1 2) monitor_loop.simps) simp
  qed
qed

lemma monitor_loop_converged:
  assumes "a \<le> k" and "k \<le> M"
    and "check k = Fulfilled (reps k)" and "percentage (reps k) = Fin 100"
    and "\<forall>j. a \<le> j \<and> j < k \<longrightarrow> check j = Fulfilled (reps j) \<and> percentage (reps j) \<noteq> Fin 100"
  shows "snd (monitor_loop check I M a) = Fulfilled True
    \<and> map attempt_of (filter is_FanOut (fst (monitor_loop check I M a))) = [a..k]"
  using assms
proof (induction check I M a rule: monitor_loop.induct)
  case (1 check I M a)
  have le: "a \<le> M" using "1.prems" by simp
  show ?case
  proof (cases "a = k")
    case True
    then show ?thesis using le "1.prems"(3,4) by (subst (1 2) monitor_loop.simps) simp
  next
    case False
    then have lt: "a < k" using "1.prems"(1) by simp
    then have here: "check a = Fulfilled (reps a)" "percentage (reps a) \<noteq> Fin 100"
      using "1.prems"(5) by auto
    obtain tr r where rest: "monitor_loop check I M (a + 1) = (tr, r)"
      by (cases "monitor_loop check I M (a + 1)")
    have "snd (monitor_loop check I M (a + 1)) = Fulfilled True
      \<and> map attempt_of (filter is_FanOut (fst (monitor_loop check I M (a + 1)))) = [a + 1..k]"
      by (rule "1.IH" [OF le here]) (use "1.prems" lt in auto)
    then have r: "r = Fulfilled True" and tr: "map attempt_of (filter is_FanOut tr) = [a + 1..k]"
      using rest by auto
    have up: "[a..k] = a # [a + 1..k]" using lt by (simp add: upto_rec1)
    show ?thesis using le here rest r tr up
      by (subst (1 2) monitor_loop.simps) simp
  qed
qed

lemma monitor_loop_true_has_round:
  assumes "snd (monitor_loop check I M a) = Fulfilled True"
  shows "\<exists>k rep. a \<le> k \<and> k \<le> M \<and> check k = Fulfilled rep \<and> percentage rep = Fin 100"
  using assms
proof (induction check I M a rule: monitor_loop.induct)
  case (1 check I M a)
  have le: "a \<le> M"
  proof (rule ccontr)
    assume "\<not> a \<le> M"
    then have "monitor_loop check I M a = ([], Fulfilled False)"
      by (subst monitor_loop.simps) simp
    then show False using "1.prems" by simp
  qed
  show ?case
  proof (cases "check a")
    case Pending
    then have "monitor_loop check I M a = ([FanOut a Pending], Pending)"
      using le by (subst monitor_loop.simps) simp
    then show ?thesis using "1.prems" by simp
  next
    case (Rejected e)
    then have "monitor_loop check I M a = ([FanOut a (Rejected e)], Rejected e)"
      using le by (subst monitor_loop.simps) simp
    then show ?thesis using "1.prems" by simp
  next
    case (Fulfilled rep)
    show ?thesis
    proof (cases "percentage rep = Fin 100")
      case True
      then show ?thesis using le Fulfilled by blast
    next
      case ne: False
      obtain tr r where rest: "monitor_loop check I M (a + 1) = (tr, r)"
        by (cases "monitor_loop check I M (a + 1)")
      have "snd (monitor_loop check I M a) = r"
        using le Fulfilled ne rest by (subst monitor_loop.simps) simp
      then have "snd (monitor_loop check I M (a + 1)) = Fulfilled True"
        using "1.prems" rest by simp
      from "1.IH" [OF le Fulfilled ne this]
      obtain k rep' where "a + 1 \<le> k" "k \<le> M" "check k = Fulfilled rep'" "percentage rep' = Fin 100"
        by blast
      then show ?thesis by (intro exI [of _ k] exI [of _ rep']) simp
    qed
  qed
qed

lemma monitor_loop_single:
  "fst (monitor_loop check I 1 1) = [FanOut 1 (check 1)]"
proof -
  have next_empty: "monitor_loop check I 1 2 = ([], Fulfilled False)"
    by (subst monitor_loop.simps) simp
  show ?thesis
    by (subst monitor_loop.simps) (simp add: next_empty split: completion.splits)
qed

lemma monitor_loop_events:
  "FanOut k c \<in> set (fst (monitor_loop check I M a)) \<Longrightarrow> c = check k \<and> a \<le> k \<and> k \<le> M"
proof (induction check I M a rule: monitor_loop.induct)
  case (1 check I M a)
  show ?case
  proof (cases "a \<le> M")
    case False
    then have "monitor_loop check I M a = ([], Fulfilled False)"
      by (subst monitor_loop.simps) simp
    then show ?thesis using "1.prems" by simp
  next
    case le: True
    show ?thesis
    proof (cases "check a")
      case Pending
      then have "monitor_loop check I M a = ([FanOut a Pending], Pending)"
        using le by (subst monitor_loop.simps) simp
      then show ?thesis using "1.prems" Pending le by simp
    next
      case (Rejected e)
      then have "monitor_loop check I M a = ([FanOut a (Rejected e)], Rejected e)"
        using le by (subst monitor_loop.simps) simp
      then show ?thesis using "1.prems" Rejected le by simp
    next
      case (Fulfilled rep)
      show ?thesis
      proof (cases "percentage rep = Fin 100")
        case True
        then have "monitor_loop check I M a = ([FanOut a (Fulfilled rep)], Fulfilled True)"
          using le Fulfilled by (subst monitor_loop.simps) simp
        then show ?thesis using "1.prems" Fulfilled le by simp
      next
        case ne: False
        obtain tr r where rest: "monitor_loop check I M (a + 1) = (tr, r)"
          by (cases "monitor_loop check I M (a + 1)")
        have "fst (monitor_loop check I M a) =
            FanOut a (Fulfilled rep) # (if a < M then [Wait (I * 1000)] else []) @ tr"
          using le Fulfilled ne rest by (subst monitor_loop.simps) simp
        then have "FanOut k c = FanOut a (Fulfilled rep) \<or> FanOut k c \<in> set tr"
          using "1.prems" by (auto split: if_splits)
        then show ?thesis
        proof
          assume "FanOut k c = FanOut a (Fulfilled rep)"
          then show ?thesis using Fulfilled le by simp
        next
          assume "FanOut k c \<in> set tr"
          then have "FanOut k c \<in> set (fst (monitor_loop check I M (a + 1)))" using rest by simp
          from "1.IH" [OF le Fulfilled ne this] show ?thesis by simp
        qed
      qed
    qed
  qed
qed

section \<open>Record kinds and the command line\<close>

lemma upper_not_lower:
  "\<not> (97 \<le> (of_char (upper c) :: nat) \<and> (of_char (upper c) :: nat) \<le> 122)"
proof (cases "97 \<le> (of_char c :: nat) \<and> (of_char c :: nat) \<le> 122")
  case True
  then have "(of_char c :: nat) - 32 < 256" by arith
  then have "(of_char (char_of ((of_char c :: nat) - 32)) :: nat) = of_char c - 32"
    by (simp only: of_char_of mod_less)
  moreover have "upper c = char_of ((of_char c :: nat) - 32)"
    unfolding upper_def by (rule if_P [OF True])
  ultimately have "(of_char (upper c) :: nat) = of_char c - 32" by simp
  then show ?thesis using True by arith
next
  case False
  have "upper c = c" unfolding upper_def by (rule if_not_P [OF False])
  then show ?thesis using False by (simp only:) blast
qed

lemma upper_idem: "upper (upper c) = upper c"
  unfolding upper_def [of "upper c"] by (rule if_not_P [OF upper_not_lower])

lemma toUpperCase_idem: "toUpperCase (toUpperCase s) = toUpperCase s"
  by (simp add: toUpperCase_def upper_idem)

lemma toUpperCase_no_lower:
  "c \<in> set (toUpperCase s) \<Longrightarrow> \<not> (97 \<le> (of_char c :: nat) \<and> (of_char c :: nat) \<le> 122)"
  using upper_not_lower by (auto simp: toUpperCase_def)

lemma toUpperCase_ne_monitor: "toUpperCase s \<noteq> ''--monitor''"
proof
  assume "toUpperCase s = ''--monitor''"
  then have "CHR ''m'' \<in> set (toUpperCase s)" by simp
  from toUpperCase_no_lower [OF this] show False by simp
qed

lemma Object_prototype_lower:
  assumes "s \<in> set Object_prototype"
  shows "\<exists>c\<in>set s. 97 \<le> (of_char c :: nat) \<and> (of_char c :: nat) \<le> 122"
proof -
  have "list_all (\<lambda>s. list_ex (\<lambda>c. 97 \<le> (of_char c :: nat) \<and> (of_char c :: nat) \<le> 122) s)
    Object_prototype"
    by (simp add: Object_prototype_def)
  then show ?thesis using assms by (simp add: list_all_iff list_ex_iff)
qed

lemma toUpperCase_not_inherited: "toUpperCase s \<notin> set Object_prototype"
  using Object_prototype_lower toUpperCase_no_lower by blast

lemma main_recordType_not_inherited: "main_recordType args \<notin> set Object_prototype"
proof -
  have "''A'' \<notin> set Object_prototype" by (simp add: Object_prototype_def)
  then show ?thesis
    using toUpperCase_not_inherited by (simp add: main_recordType_def Let_def)
qed

lemma resolveMethod_fallback:
  assumes "rt \<notin> {''A'', ''AAAA'', ''CNAME'', ''MX'', ''TXT'', ''NS''}"
    and "rt \<notin> set Object_prototype"
  shows "resolveMethod rt = Method ''resolve4''"
  using assms by (simp add: resolveMethod_def resolveMethod_table_def)

lemma resolveMethod_A: "resolveMethod ''A'' = Method ''resolve4''"
  by (simp add: resolveMethod_def resolveMethod_table_def)

lemma checkDNSServer_method:
  assumes "resolveMethod rt = resolveMethod rt'"
  shows "checkDNSServer h w d rt srv = checkDNSServer h w d rt' srv"
  using assms by (simp add: checkDNSServer_def)

lemma checkPropagation_method:
  assumes "resolveMethod rt = resolveMethod rt'"
  shows "checkPropagation h w targets d rt = checkPropagation h w targets d rt'"
proof -
  have "checkDNSServer h w d rt = checkDNSServer h w d rt'"
    using checkDNSServer_method [OF assms] by (intro ext)
  then show ?thesis by (simp add: checkPropagation_def)
qed

lemma main_fan_outs:
  assumes "FanOut k c \<in> set (fst (main h ws args))"
  shows "c = checkPropagation h (ws k) DNS_SERVERS (main_domain args) (main_recordType args)"
proof (cases "main_monitor args")
  case True
  then have "fst (main h ws args) =
      fst (monitor_loop (\<lambda>k. checkPropagation h (ws k) DNS_SERVERS (main_domain args)
             (main_recordType args)) 30 20 1)"
    by (simp add: main_def monitorPropagation_def Let_def split: prod.splits)
  then show ?thesis using assms monitor_loop_events by fastforce
next
  case False
  then show ?thesis using assms by (simp add: main_def Let_def)
qed

lemma main_first_fan_out:
  "\<exists>tr. fst (main h ws args) =
     FanOut 1 (checkPropagation h (ws 1) DNS_SERVERS (main_domain args) (main_recordType args)) # tr"
proof (cases "main_monitor args")
  case True
  then have "fst (main h ws args) =
      fst (monitor_loop (\<lambda>k. checkPropagation h (ws k) DNS_SERVERS (main_domain args)
             (main_recordType args)) 30 20 1)"
    by (simp add: main_def monitorPropagation_def Let_def split: prod.splits)
  moreover have "(1::int) \<le> 20" by simp
  ultimately show ?thesis
    using monitor_loop_first [of 1 20 "\<lambda>k. checkPropagation h (ws k) DNS_SERVERS (main_domain args)
             (main_recordType args)" 30] by simp
next
  case False
  then show ?thesis by (simp add: main_def Let_def)
qed

lemma resolveMethod_main:
  "resolveMethod (main_recordType args) =
    Method (case map_of resolveMethod_table (main_recordType args) of
              Some m \<Rightarrow> m | None \<Rightarrow> ''resolve4'')"
  using main_recordType_not_inherited [of args]
  by (simp add: resolveMethod_def split: option.splits)

text \<open>
  A kind that names an inherited property would make the probe throw; the lemmas above
  show that \<^verbatim>\<open>main\<close>, the only caller, never passes one.
\<close>

lemma inherited_kind_throws:
  "isIP h (ip srv) \<Longrightarrow> checkDNSServer h w domain ''constructor'' srv = Inl (TypeError ''constructor'')"
  by (simp add: checkDNSServer_def resolveMethod_def resolveMethod_table_def Object_prototype_def)

section \<open>Formatting and the signature test\<close>

lemma ToString_stringify_element:
  "ToString h (stringify_element h r) =
    (case r of JStr s \<Rightarrow> s | JNum n \<Rightarrow> Number_toString h n
     | JArr xs \<Rightarrow> JSON_stringify h r | JObj kvs \<Rightarrow> JSON_stringify h r)"
  by (cases r) (simp_all add: stringify_element_def)


section \<open>The claims\<close>

text \<open>
  C9. Applied to an empty target list, the fan-out raises nothing: it fulfils with a report
  in which propagated and total are 0 and the percentage is NaN, the result of rounding
  \<^verbatim>\<open>0 / 0\<close>. Only the empty list escapes the range: the report of a fan-out over a
  non-empty list has an integer percentage between 0 and 100.
\<close>

theorem empty_target_list_gives_NaN:
  "checkPropagation h w [] domain recordType
     = Fulfilled \<lparr>propagated = 0, total = 0, percentage = NaN, results = []\<rparr>
   \<and> (targets \<noteq> [] \<and> checkPropagation h w targets domain recordType = Fulfilled rep
        \<longrightarrow> (\<exists>k. percentage rep = Fin (of_int k) \<and> 0 \<le> k \<and> k \<le> 100))"
proof (intro conjI impI)
  show "checkPropagation h w [] domain recordType
     = Fulfilled \<lparr>propagated = 0, total = 0, percentage = NaN, results = []\<rparr>"
    by (simp add: checkPropagation_def Promise_all_no_promises js_div_def)
next
  assume "targets \<noteq> [] \<and> checkPropagation h w targets domain recordType = Fulfilled rep"
  then show "\<exists>k. percentage rep = Fin (of_int k) \<and> 0 \<le> k \<and> k \<le> 100"
    using report_percentage_range by blast
qed

theorem empty_target_list_gives_NaN_witness:
  "checkPropagation sample_host sample_world [] ''example.org'' ''A''
     = Fulfilled \<lparr>propagated = 0, total = 0, percentage = NaN, results = []\<rparr>
   \<and> map_completion percentage
        (checkPropagation sample_host sample_world DNS_SERVERS ''example.org'' ''A'')
       = Fulfilled (Fin 17)"
proof -
  have ev: "map_completion percentage
        (checkPropagation sample_host sample_world DNS_SERVERS ''example.org'' ''A'')
       = Fulfilled (Fin 17)"
    by code_simp
  then obtain rep where
    rep: "checkPropagation sample_host sample_world DNS_SERVERS ''example.org'' ''A'' = Fulfilled rep"
    by (cases "checkPropagation sample_host sample_world DNS_SERVERS ''example.org'' ''A''") auto
  have ne: "DNS_SERVERS \<noteq> []" by (simp add: DNS_SERVERS_def)
  from empty_target_list_gives_NaN [of sample_host sample_world "''example.org''" "''A''" DNS_SERVERS rep]
  show ?thesis using ev rep ne by simp
qed

text \<open>
  C2. When the resolution call of a probe fails, whatever the failure, the probe returns
  an outcome with \<open>success = False\<close> and a reason, the error's code or, when the code is
  absent (or empty), its message; nothing is thrown. So a fan-out whose probes fail still
  fulfils, and its report holds one outcome per target, in the targets' order: the
  \<open>i\<close>-th entry is what the probe of the \<open>i\<close>-th target returned, the failed outcome
  with its reason where the resolution failed and the successful one where a sibling's
  resolution succeeded, and \<open>propagated\<close> counts the successful entries. The statements
  before the \<^verbatim>\<open>try\<close> are not failures of the resolution call: the theorem is about
  valid server addresses and a record kind whose lookup gives a method name.
\<close>

theorem probe_failure_contained:
  assumes "\<forall>s\<in>set targets. isIP h (ip s)"
    and "resolveMethod recordType = Method m"
    and "\<forall>i<length targets. i \<in> set (order w)"
  shows "(\<forall>s\<in>set targets. \<forall>e. resolve w m (ip s) domain = Inl e \<longrightarrow>
            checkDNSServer h w domain recordType s =
              Inr \<lparr>server = name s, success = False, p_value = None,
                   p_error = Some (case code e of
                                     Some c \<Rightarrow> if c \<noteq> [] then c else message e
                                   | None \<Rightarrow> message e)\<rparr>)
       \<and> (\<exists>rep. checkPropagation h w targets domain recordType = Fulfilled rep
             \<and> length (results rep) = length targets
             \<and> (\<forall>i<length targets. server (results rep ! i) = name (targets ! i))
             \<and> (\<forall>i<length targets.
                   checkDNSServer h w domain recordType (targets ! i) = Inr (results rep ! i))
             \<and> (\<forall>i<length targets. \<forall>e. resolve w m (ip (targets ! i)) domain = Inl e \<longrightarrow>
                   results rep ! i =
                     \<lparr>server = name (targets ! i), success = False, p_value = None,
                      p_error = Some (case code e of
                                        Some c \<Rightarrow> if c \<noteq> [] then c else message e
                                      | None \<Rightarrow> message e)\<rparr>)
             \<and> (\<forall>i<length targets. \<forall>result. resolve w m (ip (targets ! i)) domain = Inr result \<longrightarrow>
                   results rep ! i =
                     \<lparr>server = name (targets ! i), success = True,
                      p_value = Some (format_value h result), p_error = None\<rparr>)
             \<and> propagated rep = length (filter success (results rep))
             \<and> total rep = length targets)"
proof (intro conjI ballI allI impI)
  fix s e
  assume s: "s \<in> set targets" and e: "resolve w m (ip s) domain = Inl e"
  have "isIP h (ip s)" using assms(1) s by simp
  from checkDNSServer_returns [OF this assms(2), of w domain]
  show "checkDNSServer h w domain recordType s =
          Inr \<lparr>server = name s, success = False, p_value = None,
               p_error = Some (case code e of
                                 Some c \<Rightarrow> if c \<noteq> [] then c else message e
                               | None \<Rightarrow> message e)\<rparr>"
    using e by (simp add: error_reason_def)
next
  obtain rep where rep: "checkPropagation h w targets domain recordType = Fulfilled rep"
    using checkPropagation_fulfilled [OF assms] by blast
  note entry = report_entries [OF rep assms(1,2)]
  have len: "length (results rep) = length targets"
    by (rule checkPropagation_sound(1) [OF rep])
  have names: "\<forall>i<length targets. server (results rep ! i) = name (targets ! i)"
    using entry by (simp split: sum.splits)
  have probes: "\<forall>i<length targets.
      checkDNSServer h w domain recordType (targets ! i) = Inr (results rep ! i)"
    by (rule checkPropagation_sound(2) [OF rep])
  have failed: "\<forall>i<length targets. \<forall>e. resolve w m (ip (targets ! i)) domain = Inl e \<longrightarrow>
      results rep ! i =
        \<lparr>server = name (targets ! i), success = False, p_value = None,
         p_error = Some (case code e of
                           Some c \<Rightarrow> if c \<noteq> [] then c else message e
                         | None \<Rightarrow> message e)\<rparr>"
    using entry by (simp add: error_reason_def)
  have succeeded: "\<forall>i<length targets. \<forall>result. resolve w m (ip (targets ! i)) domain = Inr result \<longrightarrow>
      results rep ! i =
        \<lparr>server = name (targets ! i), success = True,
         p_value = Some (format_value h result), p_error = None\<rparr>"
    using entry by simp
  have counts: "propagated rep = length (filter success (results rep))" "total rep = length targets"
    using checkPropagation_sound(3,4) [OF rep] by simp_all
  show "\<exists>rep. checkPropagation h w targets domain recordType = Fulfilled rep
             \<and> length (results rep) = length targets
             \<and> (\<forall>i<length targets. server (results rep ! i) = name (targets ! i))
             \<and> (\<forall>i<length targets.
                   checkDNSServer h w domain recordType (targets ! i) = Inr (results rep ! i))
             \<and> (\<forall>i<length targets. \<forall>e. resolve w m (ip (targets ! i)) domain = Inl e \<longrightarrow>
                   results rep ! i =
                     \<lparr>server = name (targets ! i), success = False, p_value = None,
                      p_error = Some (case code e of
                                        Some c \<Rightarrow> if c \<noteq> [] then c else message e
                                      | None \<Rightarrow> message e)\<rparr>)
             \<and> (\<forall>i<length targets. \<forall>result. resolve w m (ip (targets ! i)) domain = Inr result \<longrightarrow>
                   results rep ! i =
                     \<lparr>server = name (targets ! i), success = True,
                      p_value = Some (format_value h result), p_error = None\<rparr>)
             \<and> propagated rep = length (filter success (results rep))
             \<and> total rep = length targets"
    using rep len names probes failed succeeded counts by blast
qed

theorem probe_failure_contained_witness:
  "checkDNSServer sample_host world_down ''example.org'' ''A'' \<lparr>name = ''Quad9'', ip = ''9.9.9.9''\<rparr>
     = Inr \<lparr>server = ''Quad9'', success = False, p_value = None, p_error = Some ''timeout''\<rparr>
   \<and> checkDNSServer sample_host sample_world ''example.org'' ''A'' \<lparr>name = ''Quad9'', ip = ''9.9.9.9''\<rparr>
     = Inr \<lparr>server = ''Quad9'', success = False, p_value = None, p_error = Some ''ENOTFOUND''\<rparr>
   \<and> map_completion (length \<circ> results)
        (checkPropagation sample_host world_down DNS_SERVERS ''example.org'' ''A'')
     = Fulfilled 6
   \<and> map_completion ((\<lambda>rs. rs ! 5) \<circ> results)
        (checkPropagation sample_host world_down DNS_SERVERS ''example.org'' ''A'')
     = Fulfilled \<lparr>server = ''Quad9'', success = False, p_value = None, p_error = Some ''timeout''\<rparr>
   \<and> map_completion ((\<lambda>rs. rs ! 0) \<circ> results)
        (checkPropagation sample_host sample_world DNS_SERVERS ''example.org'' ''A'')
     = Fulfilled \<lparr>server = ''Google'', success = True,
                  p_value = Some (JStr ''93.184.216.34''), p_error = None\<rparr>
   \<and> map_completion ((\<lambda>rs. rs ! 5) \<circ> results)
        (checkPropagation sample_host sample_world DNS_SERVERS ''example.org'' ''A'')
     = Fulfilled \<lparr>server = ''Quad9'', success = False, p_value = None, p_error = Some ''ENOTFOUND''\<rparr>"
proof -
  have ips: "\<forall>s\<in>set DNS_SERVERS. isIP sample_host (ip s)"
    by (simp add: DNS_SERVERS_def sample_host_def)
  have rm: "resolveMethod ''A'' = Method ''resolve4''" by (rule resolveMethod_A)
  have ord1: "\<forall>i<length DNS_SERVERS. i \<in> set (order world_down)"
    by (simp add: DNS_SERVERS_def world_down_def) arith
  have ord2: "\<forall>i<length DNS_SERVERS. i \<in> set (order sample_world)"
    by (simp add: DNS_SERVERS_def sample_world_def) arith
  have q: "\<lparr>name = ''Quad9'', ip = ''9.9.9.9''\<rparr> \<in> set DNS_SERVERS"
    by (simp add: DNS_SERVERS_def)
  have n5: "DNS_SERVERS ! 5 = \<lparr>name = ''Quad9'', ip = ''9.9.9.9''\<rparr>"
    and n0: "DNS_SERVERS ! 0 = \<lparr>name = ''Google'', ip = ''8.8.8.8''\<rparr>"
    and len: "length DNS_SERVERS = 6"
    by (simp_all add: DNS_SERVERS_def)
  have e1: "resolve world_down ''resolve4'' (ip \<lparr>name = ''Quad9'', ip = ''9.9.9.9''\<rparr>) ''example.org''
    = Inl \<lparr>code = None, message = ''timeout''\<rparr>"
    by (simp add: world_down_def)
  have e2: "resolve sample_world ''resolve4'' (ip \<lparr>name = ''Quad9'', ip = ''9.9.9.9''\<rparr>) ''example.org''
    = Inl \<lparr>code = Some ''ENOTFOUND'', message = ''queryA ENOTFOUND example.org''\<rparr>"
    by (simp add: sample_world_def)
  have e3: "resolve sample_world ''resolve4'' (ip \<lparr>name = ''Google'', ip = ''8.8.8.8''\<rparr>) ''example.org''
    = Inr (JArr [JStr ''93.184.216.34''])"
    by (simp add: sample_world_def)
  note down = probe_failure_contained [OF ips rm ord1, of "''example.org''"]
  note mixed = probe_failure_contained [OF ips rm ord2, of "''example.org''"]
  have c1: "checkDNSServer sample_host world_down ''example.org'' ''A'' \<lparr>name = ''Quad9'', ip = ''9.9.9.9''\<rparr>
     = Inr \<lparr>server = ''Quad9'', success = False, p_value = None, p_error = Some ''timeout''\<rparr>"
    using down [THEN conjunct1, rule_format, OF q e1] by simp
  have c2: "checkDNSServer sample_host sample_world ''example.org'' ''A'' \<lparr>name = ''Quad9'', ip = ''9.9.9.9''\<rparr>
     = Inr \<lparr>server = ''Quad9'', success = False, p_value = None, p_error = Some ''ENOTFOUND''\<rparr>"
    using mixed [THEN conjunct1, rule_format, OF q e2] by simp
  obtain rep where r: "checkPropagation sample_host world_down DNS_SERVERS ''example.org'' ''A'' = Fulfilled rep"
    and l: "length (results rep) = length DNS_SERVERS"
    and fl: "\<forall>i<length DNS_SERVERS. \<forall>e.
       resolve world_down ''resolve4'' (ip (DNS_SERVERS ! i)) ''example.org'' = Inl e \<longrightarrow>
       results rep ! i =
         \<lparr>server = name (DNS_SERVERS ! i), success = False, p_value = None,
          p_error = Some (case code e of
                            Some c \<Rightarrow> if c \<noteq> [] then c else message e
                          | None \<Rightarrow> message e)\<rparr>"
    using down [THEN conjunct2] by blast
  have c3: "map_completion (length \<circ> results)
        (checkPropagation sample_host world_down DNS_SERVERS ''example.org'' ''A'') = Fulfilled 6"
    using r l by (simp add: len)
  have "results rep ! 5 =
      \<lparr>server = ''Quad9'', success = False, p_value = None, p_error = Some ''timeout''\<rparr>"
    using fl [rule_format, of 5, OF _ e1 [folded n5]] by (simp add: len n5)
  then have c4: "map_completion ((\<lambda>rs. rs ! 5) \<circ> results)
        (checkPropagation sample_host world_down DNS_SERVERS ''example.org'' ''A'')
     = Fulfilled \<lparr>server = ''Quad9'', success = False, p_value = None, p_error = Some ''timeout''\<rparr>"
    using r by simp
  obtain rep' where r': "checkPropagation sample_host sample_world DNS_SERVERS ''example.org'' ''A'' = Fulfilled rep'"
    and fl': "\<forall>i<length DNS_SERVERS. \<forall>e.
       resolve sample_world ''resolve4'' (ip (DNS_SERVERS ! i)) ''example.org'' = Inl e \<longrightarrow>
       results rep' ! i =
         \<lparr>server = name (DNS_SERVERS ! i), success = False, p_value = None,
          p_error = Some (case code e of
                            Some c \<Rightarrow> if c \<noteq> [] then c else message e
                          | None \<Rightarrow> message e)\<rparr>"
    and ok': "\<forall>i<length DNS_SERVERS. \<forall>result.
       resolve sample_world ''resolve4'' (ip (DNS_SERVERS ! i)) ''example.org'' = Inr result \<longrightarrow>
       results rep' ! i =
         \<lparr>server = name (DNS_SERVERS ! i), success = True,
          p_value = Some (format_value sample_host result), p_error = None\<rparr>"
    using mixed [THEN conjunct2] by blast
  have "results rep' ! 0 =
      \<lparr>server = ''Google'', success = True, p_value = Some (JStr ''93.184.216.34''), p_error = None\<rparr>"
    using ok' [rule_format, of 0, OF _ e3 [folded n0]] by (simp add: len n0 stringify_element_def)
  then have c5: "map_completion ((\<lambda>rs. rs ! 0) \<circ> results)
        (checkPropagation sample_host sample_world DNS_SERVERS ''example.org'' ''A'')
     = Fulfilled \<lparr>server = ''Google'', success = True,
                  p_value = Some (JStr ''93.184.216.34''), p_error = None\<rparr>"
    using r' by simp
  have "results rep' ! 5 =
      \<lparr>server = ''Quad9'', success = False, p_value = None, p_error = Some ''ENOTFOUND''\<rparr>"
    using fl' [rule_format, of 5, OF _ e2 [folded n5]] by (simp add: len n5)
  then have c6: "map_completion ((\<lambda>rs. rs ! 5) \<circ> results)
        (checkPropagation sample_host sample_world DNS_SERVERS ''example.org'' ''A'')
     = Fulfilled \<lparr>server = ''Quad9'', success = False, p_value = None, p_error = Some ''ENOTFOUND''\<rparr>"
    using r' by simp
  show ?thesis using c1 c2 c3 c4 c5 c6 by simp
qed

text \<open>
  C4. For every record kind that reaches the probe (\<^verbatim>\<open>main\<close>, the only caller, passes
  its upper-cased argument or \<^verbatim>\<open>'A'\<close>) and lies outside A, AAAA, CNAME, MX, TXT and
  NS, the lookup gives \<^verbatim>\<open>resolve4\<close>: the probe raises no error on account of the
  kind, resolves with the A-record operation, and behaves as a probe with kind A does, and
  so does the fan-out. \<^verbatim>\<open>SRV\<close> is such a kind.
\<close>

theorem unsupported_kind_falls_back:
  assumes "recordType = main_recordType args"
    and "recordType \<notin> {''A'', ''AAAA'', ''CNAME'', ''MX'', ''TXT'', ''NS''}"
  shows "resolveMethod recordType = Method ''resolve4''
       \<and> checkDNSServer h w domain recordType srv = checkDNSServer h w domain ''A'' srv
       \<and> (\<forall>k. checkDNSServer h w domain recordType srv \<noteq> Inl (TypeError k))
       \<and> (isIP h (ip srv) \<longrightarrow>
            checkDNSServer h w domain recordType srv =
              Inr (case resolve w ''resolve4'' (ip srv) domain of
                     Inr result \<Rightarrow> \<lparr>server = name srv, success = True,
                            p_value = Some (format_value h result), p_error = None\<rparr>
                   | Inl e \<Rightarrow> \<lparr>server = name srv, success = False,
                            p_value = None, p_error = Some (error_reason e)\<rparr>))
       \<and> checkPropagation h w targets domain recordType = checkPropagation h w targets domain ''A''"
proof -
  have ni: "recordType \<notin> set Object_prototype"
    using assms(1) main_recordType_not_inherited by simp
  have fb: "resolveMethod recordType = Method ''resolve4''"
    by (rule resolveMethod_fallback [OF assms(2) ni])
  have rm: "resolveMethod recordType = resolveMethod ''A''"
    using fb resolveMethod_A by simp
  have no_throw: "\<forall>k. checkDNSServer h w domain recordType srv \<noteq> Inl (TypeError k)"
    using fb by (simp add: checkDNSServer_def split: sum.splits)
  have ret: "isIP h (ip srv) \<longrightarrow>
            checkDNSServer h w domain recordType srv =
              Inr (case resolve w ''resolve4'' (ip srv) domain of
                     Inr result \<Rightarrow> \<lparr>server = name srv, success = True,
                            p_value = Some (format_value h result), p_error = None\<rparr>
                   | Inl e \<Rightarrow> \<lparr>server = name srv, success = False,
                            p_value = None, p_error = Some (error_reason e)\<rparr>)"
    using checkDNSServer_returns [OF _ fb] by blast
  show ?thesis
    using fb checkDNSServer_method [OF rm] checkPropagation_method [OF rm] no_throw ret
    by (simp only: simp_thms)
qed

theorem unsupported_kind_falls_back_witness:
  "main_recordType [''example.org'', ''srv''] = ''SRV''
   \<and> resolveMethod ''SRV'' = Method ''resolve4''
   \<and> checkDNSServer sample_host sample_world ''example.org'' ''SRV''
        \<lparr>name = ''Google'', ip = ''8.8.8.8''\<rparr>
       = Inr \<lparr>server = ''Google'', success = True,
              p_value = Some (JStr ''93.184.216.34''), p_error = None\<rparr>
   \<and> checkDNSServer sample_host sample_world ''example.org'' ''SRV''
        \<lparr>name = ''Google'', ip = ''8.8.8.8''\<rparr>
       = checkDNSServer sample_host sample_world ''example.org'' ''A''
        \<lparr>name = ''Google'', ip = ''8.8.8.8''\<rparr>
   \<and> checkPropagation sample_host sample_world DNS_SERVERS ''example.org'' ''SRV''
       = checkPropagation sample_host sample_world DNS_SERVERS ''example.org'' ''A''"
proof -
  have u: "toUpperCase ''srv'' = ''SRV''" by code_simp
  have k': "main_recordType [''example.org'', ''srv''] = ''SRV''"
    by (simp add: main_recordType_def u)
  note k = k' [symmetric]
  have a: "''SRV'' \<notin> {''A'', ''AAAA'', ''CNAME'', ''MX'', ''TXT'', ''NS''}" by simp
  have i: "isIP sample_host (ip \<lparr>name = ''Google'', ip = ''8.8.8.8''\<rparr>)"
    by (simp add: sample_host_def)
  have r: "resolve sample_world ''resolve4'' (ip \<lparr>name = ''Google'', ip = ''8.8.8.8''\<rparr>) ''example.org''
    = Inr (JArr [JStr ''93.184.216.34''])"
    by (simp add: sample_world_def)
  from unsupported_kind_falls_back [OF k a, of sample_host sample_world "''example.org''"
      "\<lparr>name = ''Google'', ip = ''8.8.8.8''\<rparr>" DNS_SERVERS]
  have "resolveMethod ''SRV'' = Method ''resolve4''
   \<and> checkDNSServer sample_host sample_world ''example.org'' ''SRV''
        \<lparr>name = ''Google'', ip = ''8.8.8.8''\<rparr>
       = Inr \<lparr>server = ''Google'', success = True,
              p_value = Some (JStr ''93.184.216.34''), p_error = None\<rparr>
   \<and> checkDNSServer sample_host sample_world ''example.org'' ''SRV''
        \<lparr>name = ''Google'', ip = ''8.8.8.8''\<rparr>
       = checkDNSServer sample_host sample_world ''example.org'' ''A''
        \<lparr>name = ''Google'', ip = ''8.8.8.8''\<rparr>
   \<and> checkPropagation sample_host sample_world DNS_SERVERS ''example.org'' ''SRV''
       = checkPropagation sample_host sample_world DNS_SERVERS ''example.org'' ''A''"
    using i r by (elim conjE) (simp add: stringify_element_def)
  then show ?thesis using k' by (elim conjE, intro conjI) assumption+
qed

text \<open>
  C5. The outcomes of a report stand in the declaration order of the targets and are as
  many: the \<open>i\<close>-th outcome is what the probe of the \<open>i\<close>-th target returned. When no
  probe throws, every completion order of the probes (every permutation of the positions)
  gives the same report.
\<close>

theorem outcomes_in_declaration_order:
  "(checkPropagation h w targets domain recordType = Fulfilled rep \<longrightarrow>
      length (results rep) = length targets
      \<and> (\<forall>i<length targets.
            checkDNSServer h w domain recordType (targets ! i) = Inr (results rep ! i)))
   \<and> ((\<forall>s\<in>set targets. isIP h (ip s)) \<and> resolveMethod recordType = Method m
        \<and> mset ord = mset [0..<length targets] \<and> mset ord' = mset [0..<length targets]
      \<longrightarrow> (\<exists>rep. checkPropagation h (w\<lparr>order := ord\<rparr>) targets domain recordType = Fulfilled rep
                \<and> checkPropagation h (w\<lparr>order := ord'\<rparr>) targets domain recordType = Fulfilled rep
                \<and> (\<forall>i<length targets. server (results rep ! i) = name (targets ! i))))"
proof (intro conjI impI)
  assume run: "checkPropagation h w targets domain recordType = Fulfilled rep"
  show "length (results rep) = length targets" by (rule checkPropagation_sound(1) [OF run])
  show "\<forall>i<length targets.
            checkDNSServer h w domain recordType (targets ! i) = Inr (results rep ! i)"
    by (rule checkPropagation_sound(2) [OF run])
next
  assume a: "(\<forall>s\<in>set targets. isIP h (ip s)) \<and> resolveMethod recordType = Method m
        \<and> mset ord = mset [0..<length targets] \<and> mset ord' = mset [0..<length targets]"
  then have ips: "\<forall>s\<in>set targets. isIP h (ip s)" and rm: "resolveMethod recordType = Method m"
    by simp_all
  have "set ord = set [0..<length targets]" using a by (metis mset_eq_setD)
  then have o1: "\<forall>i<length targets. i \<in> set (order (w\<lparr>order := ord\<rparr>))" by simp
  have "set ord' = set [0..<length targets]" using a by (metis mset_eq_setD)
  then have o2: "\<forall>i<length targets. i \<in> set (order (w\<lparr>order := ord'\<rparr>))" by simp
  obtain rep where r1: "checkPropagation h (w\<lparr>order := ord\<rparr>) targets domain recordType = Fulfilled rep"
    using checkPropagation_fulfilled [OF ips rm o1] by blast
  obtain rep' where r2: "checkPropagation h (w\<lparr>order := ord'\<rparr>) targets domain recordType = Fulfilled rep'"
    using checkPropagation_fulfilled [OF ips rm o2] by blast
  have same: "results rep = results rep'"
  proof (rule nth_equalityI)
    show "length (results rep) = length (results rep')"
      using checkPropagation_sound(1) [OF r1] checkPropagation_sound(1) [OF r2] by simp
    fix i assume "i < length (results rep)"
    then have i: "i < length targets" using checkPropagation_sound(1) [OF r1] by simp
    have "(Inr (results rep ! i) :: exn + outcome) = Inr (results rep' ! i)"
      using checkPropagation_sound(2) [OF r1] checkPropagation_sound(2) [OF r2] i by simp
    then show "results rep ! i = results rep' ! i" by simp
  qed
  have "rep = rep'"
    using same checkPropagation_sound(3,4,5) [OF r1] checkPropagation_sound(3,4,5) [OF r2]
    by (cases rep, cases rep') simp
  moreover have "\<forall>i<length targets. server (results rep ! i) = name (targets ! i)"
  proof (intro allI impI)
    fix i assume i: "i < length targets"
    then have "isIP h (ip (targets ! i))" using ips by simp
    from checkDNSServer_returns [OF this rm, of w domain]
    show "server (results rep ! i) = name (targets ! i)"
      using checkPropagation_sound(2) [OF r1] i by (simp split: sum.splits)
  qed
  ultimately show "\<exists>rep. checkPropagation h (w\<lparr>order := ord\<rparr>) targets domain recordType = Fulfilled rep
                \<and> checkPropagation h (w\<lparr>order := ord'\<rparr>) targets domain recordType = Fulfilled rep
                \<and> (\<forall>i<length targets. server (results rep ! i) = name (targets ! i))"
    using r1 r2 by blast
qed

theorem outcomes_in_declaration_order_witness:
  "checkPropagation sample_host (sample_world\<lparr>order := [5, 3, 1, 0, 2, 4]\<rparr>) DNS_SERVERS ''example.org'' ''A''
     = checkPropagation sample_host (sample_world\<lparr>order := [0, 1, 2, 3, 4, 5]\<rparr>) DNS_SERVERS ''example.org'' ''A''
   \<and> map_completion (map server \<circ> results)
        (checkPropagation sample_host (sample_world\<lparr>order := [5, 3, 1, 0, 2, 4]\<rparr>) DNS_SERVERS
          ''example.org'' ''A'')
       = Fulfilled (map name DNS_SERVERS)"
proof -
  have ips: "\<forall>s\<in>set DNS_SERVERS. isIP sample_host (ip s)"
    by (simp add: DNS_SERVERS_def sample_host_def)
  have rm: "resolveMethod ''A'' = Method ''resolve4''" by (rule resolveMethod_A)
  have len: "length DNS_SERVERS = 6" by (simp add: DNS_SERVERS_def)
  have upt: "[0..<6] = [0, 1, 2, 3, 4, 5]" by code_simp
  have o1: "mset [5, 3, 1, 0, 2, 4] = mset [0..<length DNS_SERVERS]"
    unfolding len upt by simp
  have o2: "mset [0, 1, 2, 3, 4, 5] = mset [0..<length DNS_SERVERS]"
    unfolding len upt by simp
  from outcomes_in_declaration_order
    [of sample_host sample_world DNS_SERVERS "''example.org''" "''A''" undefined
        "''resolve4''" "[5, 3, 1, 0, 2, 4]" "[0, 1, 2, 3, 4, 5]", THEN conjunct2, rule_format]
    ips rm o1 o2
  obtain rep where
    r1: "checkPropagation sample_host (sample_world\<lparr>order := [5, 3, 1, 0, 2, 4]\<rparr>) DNS_SERVERS
          ''example.org'' ''A'' = Fulfilled rep"
    and r2: "checkPropagation sample_host (sample_world\<lparr>order := [0, 1, 2, 3, 4, 5]\<rparr>) DNS_SERVERS
          ''example.org'' ''A'' = Fulfilled rep"
    and names: "\<forall>i<length DNS_SERVERS. server (results rep ! i) = name (DNS_SERVERS ! i)"
    by blast
  from outcomes_in_declaration_order
    [of sample_host "sample_world\<lparr>order := [5, 3, 1, 0, 2, 4]\<rparr>" DNS_SERVERS "''example.org''" "''A''" rep,
      THEN conjunct1, rule_format, OF r1]
  have l: "length (results rep) = length DNS_SERVERS" by simp
  have "map server (results rep) = map name DNS_SERVERS"
    by (rule nth_equalityI) (use l names in auto)
  then show ?thesis using r1 r2 by simp
qed

text \<open>
  C7. The value of a successful probe: a result that is not an array is kept as it is; an
  array is joined into one string with \<^verbatim>\<open>', '\<close> between the elements, an element that
  is an object or an array being replaced by its \<^verbatim>\<open>JSON.stringify\<close> text first and a
  string element kept unchanged.
\<close>

theorem successful_value_formatting:
  assumes "isIP h (ip srv)" and "resolveMethod recordType = Method m"
    and "resolve w m (ip srv) domain = Inr result"
  shows "checkDNSServer h w domain recordType srv =
    Inr \<lparr>server = name srv, success = True,
         p_value = Some (case result of
            JArr rs \<Rightarrow>
              JStr (join '', ''
                (map (\<lambda>r. case r of
                        JStr s \<Rightarrow> s
                      | JNum n \<Rightarrow> Number_toString h n
                      | JArr xs \<Rightarrow> JSON_stringify h r
                      | JObj kvs \<Rightarrow> JSON_stringify h r) rs))
          | JStr s \<Rightarrow> result
          | JNum n \<Rightarrow> result
          | JObj kvs \<Rightarrow> result),
         p_error = None\<rparr>"
proof -
  have "ToString h \<circ> stringify_element h =
      (\<lambda>r. case r of
                        JStr s \<Rightarrow> s
                      | JNum n \<Rightarrow> Number_toString h n
                      | JArr xs \<Rightarrow> JSON_stringify h r
                      | JObj kvs \<Rightarrow> JSON_stringify h r)"
    by (rule ext) (simp add: ToString_stringify_element)
  then have "format_value h result = (case result of
            JArr rs \<Rightarrow>
              JStr (join '', ''
                (map (\<lambda>r. case r of
                        JStr s \<Rightarrow> s
                      | JNum n \<Rightarrow> Number_toString h n
                      | JArr xs \<Rightarrow> JSON_stringify h r
                      | JObj kvs \<Rightarrow> JSON_stringify h r) rs))
          | JStr s \<Rightarrow> result
          | JNum n \<Rightarrow> result
          | JObj kvs \<Rightarrow> result)"
    by (cases result) simp_all
  then show ?thesis
    using checkDNSServer_returns [OF assms(1,2), of w domain] assms(3) by simp
qed

theorem successful_value_formatting_witness:
  "checkDNSServer sample_host sample_world ''example.org'' ''MX'' \<lparr>name = ''Quad9'', ip = ''9.9.9.9''\<rparr>
     = Inr \<lparr>server = ''Quad9'', success = True,
           p_value = Some (JStr
             ([CHR ''{'', CHR 0x22] @ ''exchange'' @ [CHR 0x22, CHR '':'', CHR 0x22] @ ''mx1.example.org''
               @ [CHR 0x22, CHR '','', CHR 0x22] @ ''priority'' @ [CHR 0x22] @ '':10}, ''
               @ [CHR ''{'', CHR 0x22] @ ''exchange'' @ [CHR 0x22, CHR '':'', CHR 0x22] @ ''mx2.example.org''
               @ [CHR 0x22, CHR '','', CHR 0x22] @ ''priority'' @ [CHR 0x22] @ '':20}'')),
           p_error = None\<rparr>
   \<and> checkDNSServer sample_host sample_world ''example.org'' ''A'' \<lparr>name = ''Google'', ip = ''8.8.8.8''\<rparr>
     = Inr \<lparr>server = ''Google'', success = True,
           p_value = Some (JStr ''93.184.216.34''), p_error = None\<rparr>"
proof -
  have ip1: "isIP sample_host (ip \<lparr>name = ''Quad9'', ip = ''9.9.9.9''\<rparr>)"
    by (simp add: sample_host_def)
  have ip2: "isIP sample_host (ip \<lparr>name = ''Google'', ip = ''8.8.8.8''\<rparr>)"
    by (simp add: sample_host_def)
  have mx: "resolveMethod ''MX'' = Method ''resolveMx''"
    by (simp add: resolveMethod_def resolveMethod_table_def)
  have a: "resolveMethod ''A'' = Method ''resolve4''" by (rule resolveMethod_A)
  have r1: "resolve sample_world ''resolveMx'' (ip \<lparr>name = ''Quad9'', ip = ''9.9.9.9''\<rparr>) ''example.org''
    = Inr (JArr [JObj [(''exchange'', JStr ''mx1.example.org''), (''priority'', JNum 10)],
                     JObj [(''exchange'', JStr ''mx2.example.org''), (''priority'', JNum 20)]])"
    by (simp add: sample_world_def)
  have r2: "resolve sample_world ''resolve4'' (ip \<lparr>name = ''Google'', ip = ''8.8.8.8''\<rparr>) ''example.org''
    = Inr (JArr [JStr ''93.184.216.34''])"
    by (simp add: sample_world_def)
  have d10: "decimal 10 = ''10''" and d20: "decimal 20 = ''20''" by code_simp+
  show ?thesis
    using successful_value_formatting [OF ip1 mx r1] successful_value_formatting [OF ip2 a r2]
    by (simp add: sample_host_def signed_decimal_def d10 d20)
qed

text \<open>
  C10. \<^verbatim>\<open>main\<close> upper-cases its second argument before the record kind is looked up
  (and takes \<^verbatim>\<open>'A'\<close> when the argument is absent or empty), so a lower-case kind
  such as \<^verbatim>\<open>cname\<close> runs as its upper-case form does, and no kind that \<^verbatim>\<open>main\<close>
  passes is an inherited property name. With \<^verbatim>\<open>--monitor\<close> as the second argument the
  kind is the string \<^verbatim>\<open>--MONITOR\<close>, which falls back to the A-record operation: the
  invocation monitors as \<^verbatim>\<open>A --monitor\<close> does and is not rejected. The upper-cased
  kind is what every fan-out of the run is made with: each run begins with a fan-out, each
  fan-out of it is \<^verbatim>\<open>checkPropagation\<close> of the domain and that kind, and each entry of
  its report comes from the resolver method the table gives for that kind, or from
  \<^verbatim>\<open>resolve4\<close> when the table has none.
\<close>

theorem cli_kind_is_uppercased:
  "main_recordType args =
      (if 1 < length args \<and> toUpperCase (args ! 1) \<noteq> [] then toUpperCase (args ! 1) else ''A'')
   \<and> main_recordType (d # toUpperCase r # rest) = main_recordType (d # r # rest)
   \<and> (r \<noteq> ''--monitor'' \<longrightarrow> main h ws (d # toUpperCase r # rest) = main h ws (d # r # rest))
   \<and> main_recordType args \<notin> set Object_prototype
   \<and> main_recordType [d, ''cname''] = ''CNAME''
   \<and> resolveMethod ''CNAME'' = Method ''resolveCname''
   \<and> main_recordType [d, ''--monitor''] = ''--MONITOR''
   \<and> main_monitor [d, ''--monitor'']
   \<and> resolveMethod ''--MONITOR'' = Method ''resolve4''
   \<and> checkDNSServer h w domain ''--MONITOR'' srv = checkDNSServer h w domain ''A'' srv
   \<and> main h ws [d, ''--monitor''] = main h ws [d, ''A'', ''--monitor'']
   \<and> (\<exists>tr. fst (main h ws args) =
          FanOut 1 (checkPropagation h (ws 1) DNS_SERVERS (main_domain args) (main_recordType args)) # tr)
   \<and> (\<forall>k c. FanOut k c \<in> set (fst (main h ws args)) \<longrightarrow>
          c = checkPropagation h (ws k) DNS_SERVERS (main_domain args) (main_recordType args))
   \<and> (\<forall>k rep i. FanOut k (Fulfilled rep) \<in> set (fst (main h ws args))
          \<and> (\<forall>s\<in>set DNS_SERVERS. isIP h (ip s)) \<and> i < length DNS_SERVERS \<longrightarrow>
          results rep ! i =
            (case resolve (ws k)
                    (case map_of resolveMethod_table (main_recordType args) of
                       Some m \<Rightarrow> m | None \<Rightarrow> ''resolve4'')
                    (ip (DNS_SERVERS ! i)) (main_domain args) of
               Inr result \<Rightarrow> \<lparr>server = name (DNS_SERVERS ! i), success = True,
                      p_value = Some (format_value h result), p_error = None\<rparr>
             | Inl e \<Rightarrow> \<lparr>server = name (DNS_SERVERS ! i), success = False,
                      p_value = None, p_error = Some (error_reason e)\<rparr>))
   \<and> (''--monitor'' \<notin> set args \<longrightarrow>
          main h ws args =
            ([FanOut 1 (checkPropagation h (ws 1) DNS_SERVERS (main_domain args) (main_recordType args))],
             void (checkPropagation h (ws 1) DNS_SERVERS (main_domain args) (main_recordType args))))
   \<and> (''--monitor'' \<in> set args \<longrightarrow>
          main h ws args =
            (fst (monitorPropagation h ws DNS_SERVERS (main_domain args) (main_recordType args) 30 20),
             void (snd (monitorPropagation h ws DNS_SERVERS (main_domain args) (main_recordType args) 30 20))))"
proof -
  have kind: "main_recordType args =
      (if 1 < length args \<and> toUpperCase (args ! 1) \<noteq> [] then toUpperCase (args ! 1) else ''A'')
   \<and> main_recordType (d # toUpperCase r # rest) = main_recordType (d # r # rest)
   \<and> (r \<noteq> ''--monitor'' \<longrightarrow> main h ws (d # toUpperCase r # rest) = main h ws (d # r # rest))
   \<and> main_recordType args \<notin> set Object_prototype
   \<and> main_recordType [d, ''cname''] = ''CNAME''
   \<and> resolveMethod ''CNAME'' = Method ''resolveCname''
   \<and> main_recordType [d, ''--monitor''] = ''--MONITOR''
   \<and> main_monitor [d, ''--monitor'']
   \<and> resolveMethod ''--MONITOR'' = Method ''resolve4''
   \<and> checkDNSServer h w domain ''--MONITOR'' srv = checkDNSServer h w domain ''A'' srv
   \<and> main h ws [d, ''--monitor''] = main h ws [d, ''A'', ''--monitor'']"
  proof (intro conjI impI)
    have u1: "toUpperCase ''cname'' = ''CNAME''" by code_simp
    have u2: "toUpperCase ''--monitor'' = ''--MONITOR''" by code_simp
    have u3: "toUpperCase ''A'' = ''A''" by code_simp
    show "main_recordType args =
        (if 1 < length args \<and> toUpperCase (args ! 1) \<noteq> [] then toUpperCase (args ! 1) else ''A'')"
      by (simp add: main_recordType_def Let_def)
    show same: "main_recordType (d # toUpperCase r # rest) = main_recordType (d # r # rest)"
      by (simp add: main_recordType_def Let_def toUpperCase_idem)
    show "main_recordType args \<notin> set Object_prototype" by (rule main_recordType_not_inherited)
    show "main_recordType [d, ''cname''] = ''CNAME''"
      by (simp add: main_recordType_def u1)
    show "resolveMethod ''CNAME'' = Method ''resolveCname''"
      by (simp add: resolveMethod_def resolveMethod_table_def)
    show up: "main_recordType [d, ''--monitor''] = ''--MONITOR''"
      by (simp add: main_recordType_def u2)
    show mon: "main_monitor [d, ''--monitor'']" by (simp add: main_monitor_def)
    show fb: "resolveMethod ''--MONITOR'' = Method ''resolve4''"
      by (simp add: resolveMethod_def resolveMethod_table_def Object_prototype_def)
    have rm: "resolveMethod ''--MONITOR'' = resolveMethod ''A''"
      using fb resolveMethod_A by simp
    show "checkDNSServer h w domain ''--MONITOR'' srv = checkDNSServer h w domain ''A'' srv"
      by (rule checkDNSServer_method [OF rm])
    have cp: "checkPropagation h w' targets dom ''--MONITOR'' = checkPropagation h w' targets dom ''A''"
      for w' targets dom
      by (rule checkPropagation_method [OF rm])
    have "main_recordType [d, ''A'', ''--monitor''] = ''A''"
      by (simp add: main_recordType_def u3)
    moreover have "main_monitor [d, ''A'', ''--monitor'']" by (simp add: main_monitor_def)
    moreover have "main_domain [d, ''--monitor''] = main_domain [d, ''A'', ''--monitor'']"
      by (simp add: main_domain_def)
    ultimately show "main h ws [d, ''--monitor''] = main h ws [d, ''A'', ''--monitor'']"
      using up mon by (simp add: main_def monitorPropagation_def cp)
  next
    assume r: "r \<noteq> ''--monitor''"
    have "main_monitor (d # toUpperCase r # rest) = main_monitor (d # r # rest)"
      using r toUpperCase_ne_monitor [of r] by (auto simp: main_monitor_def)
    moreover have "main_domain (d # toUpperCase r # rest) = main_domain (d # r # rest)"
      by (simp add: main_domain_def)
    moreover have "main_recordType (d # toUpperCase r # rest) = main_recordType (d # r # rest)"
      by (simp add: main_recordType_def Let_def toUpperCase_idem)
    ultimately show "main h ws (d # toUpperCase r # rest) = main h ws (d # r # rest)"
      by (simp add: main_def)
  qed
  have first: "\<exists>tr. fst (main h ws args) =
          FanOut 1 (checkPropagation h (ws 1) DNS_SERVERS (main_domain args) (main_recordType args)) # tr"
    by (rule main_first_fan_out)
  have all: "\<forall>k c. FanOut k c \<in> set (fst (main h ws args)) \<longrightarrow>
          c = checkPropagation h (ws k) DNS_SERVERS (main_domain args) (main_recordType args)"
    using main_fan_outs by blast
  have probes: "\<forall>k rep i. FanOut k (Fulfilled rep) \<in> set (fst (main h ws args))
          \<and> (\<forall>s\<in>set DNS_SERVERS. isIP h (ip s)) \<and> i < length DNS_SERVERS \<longrightarrow>
          results rep ! i =
            (case resolve (ws k)
                    (case map_of resolveMethod_table (main_recordType args) of
                       Some m \<Rightarrow> m | None \<Rightarrow> ''resolve4'')
                    (ip (DNS_SERVERS ! i)) (main_domain args) of
               Inr result \<Rightarrow> \<lparr>server = name (DNS_SERVERS ! i), success = True,
                      p_value = Some (format_value h result), p_error = None\<rparr>
             | Inl e \<Rightarrow> \<lparr>server = name (DNS_SERVERS ! i), success = False,
                      p_value = None, p_error = Some (error_reason e)\<rparr>)"
  proof (intro allI impI)
    fix k rep i
    assume a: "FanOut k (Fulfilled rep) \<in> set (fst (main h ws args))
          \<and> (\<forall>s\<in>set DNS_SERVERS. isIP h (ip s)) \<and> i < length DNS_SERVERS"
    then have run: "checkPropagation h (ws k) DNS_SERVERS (main_domain args) (main_recordType args)
        = Fulfilled rep"
      using main_fan_outs [of k "Fulfilled rep" h ws args] by simp
    from report_entries [OF run _ resolveMethod_main] a
    show "results rep ! i =
            (case resolve (ws k)
                    (case map_of resolveMethod_table (main_recordType args) of
                       Some m \<Rightarrow> m | None \<Rightarrow> ''resolve4'')
                    (ip (DNS_SERVERS ! i)) (main_domain args) of
               Inr result \<Rightarrow> \<lparr>server = name (DNS_SERVERS ! i), success = True,
                      p_value = Some (format_value h result), p_error = None\<rparr>
             | Inl e \<Rightarrow> \<lparr>server = name (DNS_SERVERS ! i), success = False,
                      p_value = None, p_error = Some (error_reason e)\<rparr>)"
      by blast
  qed
  have single: "''--monitor'' \<notin> set args \<longrightarrow>
          main h ws args =
            ([FanOut 1 (checkPropagation h (ws 1) DNS_SERVERS (main_domain args) (main_recordType args))],
             void (checkPropagation h (ws 1) DNS_SERVERS (main_domain args) (main_recordType args)))"
    by (simp add: main_def main_monitor_def Let_def)
  have monitored: "''--monitor'' \<in> set args \<longrightarrow>
          main h ws args =
            (fst (monitorPropagation h ws DNS_SERVERS (main_domain args) (main_recordType args) 30 20),
             void (snd (monitorPropagation h ws DNS_SERVERS (main_domain args) (main_recordType args) 30 20)))"
    by (simp add: main_def main_monitor_def Let_def split: prod.splits)
  show ?thesis using kind first all probes single monitored
    by (elim conjE, intro conjI) assumption+
qed

theorem cli_kind_is_uppercased_witness:
  "main sample_host (\<lambda>k. world_up) [''example.org'', ''CNAME'']
     = main sample_host (\<lambda>k. world_up) [''example.org'', ''cname'']
   \<and> main_recordType [''example.org'', ''cname''] = ''CNAME''
   \<and> main_recordType [''example.org'', ''--monitor''] = ''--MONITOR''
   \<and> main sample_host (\<lambda>k. sample_world) [''example.org'', ''mx'']
       = ([FanOut 1 (checkPropagation sample_host sample_world DNS_SERVERS ''example.org'' ''MX'')],
          void (checkPropagation sample_host sample_world DNS_SERVERS ''example.org'' ''MX''))
   \<and> map_completion percentage
         (checkPropagation sample_host sample_world DNS_SERVERS ''example.org'' ''MX'')
       = Fulfilled (Fin 100)
   \<and> map_completion percentage
         (checkPropagation sample_host sample_world DNS_SERVERS ''example.org'' ''A'')
       = Fulfilled (Fin 17)"
proof -
  have u: "toUpperCase ''cname'' = ''CNAME''" by code_simp
  have n: "''cname'' \<noteq> ''--monitor''" by simp
  have um: "toUpperCase ''mx'' = ''MX''" by code_simp
  have km: "main_recordType [''example.org'', ''mx''] = ''MX''"
    by (simp add: main_recordType_def um)
  have dm: "main_domain [''example.org'', ''mx''] = ''example.org''"
    by (simp add: main_domain_def)
  have nm: "''--monitor'' \<notin> set [''example.org'', ''mx'']" by simp
  have p1: "map_completion percentage
         (checkPropagation sample_host sample_world DNS_SERVERS ''example.org'' ''MX'')
       = Fulfilled (Fin 100)"
    by code_simp
  have p2: "map_completion percentage
         (checkPropagation sample_host sample_world DNS_SERVERS ''example.org'' ''A'')
       = Fulfilled (Fin 17)"
    by code_simp
  from cli_kind_is_uppercased [of "[''example.org'', ''mx'']" "''example.org''" "''cname''" "[]"
      sample_host "\<lambda>k. sample_world"]
  have m: "main sample_host (\<lambda>k. sample_world) [''example.org'', ''mx'']
       = ([FanOut 1 (checkPropagation sample_host sample_world DNS_SERVERS ''example.org'' ''MX'')],
          void (checkPropagation sample_host sample_world DNS_SERVERS ''example.org'' ''MX''))"
    using nm km dm by simp
  from cli_kind_is_uppercased [of "[''example.org'', ''cname'']" "''example.org''" "''cname''" "[]"
      sample_host "\<lambda>k. world_up"]
  have c: "main sample_host (\<lambda>k. world_up) [''example.org'', ''CNAME'']
     = main sample_host (\<lambda>k. world_up) [''example.org'', ''cname'']
   \<and> main_recordType [''example.org'', ''cname''] = ''CNAME''
   \<and> main_recordType [''example.org'', ''--monitor''] = ''--MONITOR''"
    using u n by simp
  show ?thesis using c m p1 p2 by simp
qed

text \<open>
  C3. When the fan-outs of the first \<open>maxAttempts\<close> attempts fulfil, the poll loop
  returns true exactly when one of them reports a percentage of 100. It stops at the
  first such attempt \<open>k\<close>: the fan-outs it performed are those of attempts 1 to \<open>k\<close>, in
  this order, so a fan-out that reports 100 at once is called a single time. When no
  attempt reports 100 the fan-outs are those of attempts 1 to \<open>maxAttempts\<close>, one after
  the other, and the loop returns false.
\<close>

theorem poll_loop_converges_or_exhausts:
  assumes "\<forall>k. 1 \<le> k \<and> k \<le> maxAttempts \<longrightarrow>
             checkPropagation h (ws k) targets domain recordType = Fulfilled (reps k)"
  shows "(snd (monitorPropagation h ws targets domain recordType intervalSeconds maxAttempts)
            = Fulfilled True
          \<longleftrightarrow> (\<exists>k. 1 \<le> k \<and> k \<le> maxAttempts \<and> percentage (reps k) = Fin 100))
       \<and> (\<forall>k. 1 \<le> k \<and> k \<le> maxAttempts \<and> percentage (reps k) = Fin 100
               \<and> (\<forall>j. 1 \<le> j \<and> j < k \<longrightarrow> percentage (reps j) \<noteq> Fin 100)
             \<longrightarrow> map attempt_of (filter is_FanOut
                   (fst (monitorPropagation h ws targets domain recordType intervalSeconds maxAttempts)))
                 = [1..k])
       \<and> ((\<forall>k. 1 \<le> k \<and> k \<le> maxAttempts \<longrightarrow> percentage (reps k) \<noteq> Fin 100)
             \<longrightarrow> snd (monitorPropagation h ws targets domain recordType intervalSeconds maxAttempts)
                   = Fulfilled False
                 \<and> map attempt_of (filter is_FanOut
                   (fst (monitorPropagation h ws targets domain recordType intervalSeconds maxAttempts)))
                 = [1..maxAttempts])"
proof -
  let ?check = "\<lambda>k. checkPropagation h (ws k) targets domain recordType"
  let ?run = "monitor_loop ?check intervalSeconds maxAttempts 1"
  let ?hit = "\<lambda>k. 1 \<le> k \<and> k \<le> maxAttempts \<and> percentage (reps k) = Fin 100"
  have first: "snd ?run = Fulfilled True \<and> map attempt_of (filter is_FanOut (fst ?run)) = [1..k]"
    if k: "?hit k" and least: "\<forall>j. 1 \<le> j \<and> j < k \<longrightarrow> percentage (reps j) \<noteq> Fin 100" for k
  proof (rule monitor_loop_converged [where reps = reps])
    show "1 \<le> k" "k \<le> maxAttempts" using k by simp_all
    show "?check k = Fulfilled (reps k)" using assms k by simp
    show "percentage (reps k) = Fin 100" using k by simp
    show "\<forall>j. 1 \<le> j \<and> j < k \<longrightarrow> ?check j = Fulfilled (reps j) \<and> percentage (reps j) \<noteq> Fin 100"
      using assms least k by auto
  qed
  have iff: "snd ?run = Fulfilled True \<longleftrightarrow> (\<exists>k. ?hit k)"
  proof
    assume "snd ?run = Fulfilled True"
    from monitor_loop_true_has_round [OF this]
    obtain k rep where k: "1 \<le> k" "k \<le> maxAttempts" and rep: "?check k = Fulfilled rep"
      and p: "percentage rep = Fin 100" by blast
    have "rep = reps k" using assms k rep by simp
    then show "\<exists>k. ?hit k" using k p by blast
  next
    assume "\<exists>k. ?hit k"
    then obtain k where "?hit k" by blast
    then have "\<exists>n. ?hit (int n)" by (intro exI [of _ "nat k"]) simp
    then obtain n where n: "?hit (int n)" and least: "\<forall>m<n. \<not> ?hit (int m)"
      using exists_least_iff [of "\<lambda>n. ?hit (int n)"] by blast
    have "\<forall>j. 1 \<le> j \<and> j < int n \<longrightarrow> percentage (reps j) \<noteq> Fin 100"
    proof (intro allI impI)
      fix j assume j: "1 \<le> j \<and> j < int n"
      then have "nat j < n" by linarith
      then have "\<not> ?hit (int (nat j))" using least by blast
      then show "percentage (reps j) \<noteq> Fin 100" using j n by simp
    qed
    from first [OF n this] show "snd ?run = Fulfilled True" by simp
  qed
  have none: "snd ?run = Fulfilled False \<and> map attempt_of (filter is_FanOut (fst ?run)) = [1..maxAttempts]"
    if "\<forall>k. 1 \<le> k \<and> k \<le> maxAttempts \<longrightarrow> percentage (reps k) \<noteq> Fin 100"
    by (rule monitor_loop_exhausted [where reps = reps]) (use assms that in auto)
  show ?thesis
    unfolding monitorPropagation_def using iff first none by blast
qed

theorem poll_loop_converges_or_exhausts_witness:
  "snd (monitorPropagation sample_host (\<lambda>k. world_down) DNS_SERVERS ''example.org'' ''A'' 30 3)
     = Fulfilled False
   \<and> map attempt_of (filter is_FanOut
        (fst (monitorPropagation sample_host (\<lambda>k. world_down) DNS_SERVERS ''example.org'' ''A'' 30 3)))
     = [1, 2, 3]
   \<and> snd (monitorPropagation sample_host (\<lambda>k. world_up) DNS_SERVERS ''example.org'' ''A'' 30 20)
     = Fulfilled True
   \<and> map attempt_of (filter is_FanOut
        (fst (monitorPropagation sample_host (\<lambda>k. world_up) DNS_SERVERS ''example.org'' ''A'' 30 20)))
     = [1]"
proof -
  define down where "down = \<lparr>propagated = 0, total = 6, percentage = Fin 0,
    results = map (\<lambda>n. \<lparr>server = n, success = False, p_value = None, p_error = Some ''timeout''\<rparr>)
      (map name DNS_SERVERS)\<rparr>"
  define up where "up = \<lparr>propagated = 6, total = 6, percentage = Fin 100,
    results = map (\<lambda>n. \<lparr>server = n, success = True, p_value = Some (JStr ''93.184.216.34''),
      p_error = None\<rparr>) (map name DNS_SERVERS)\<rparr>"
  have d: "checkPropagation sample_host world_down DNS_SERVERS ''example.org'' ''A'' = Fulfilled down"
    unfolding down_def by code_simp
  have u: "checkPropagation sample_host world_up DNS_SERVERS ''example.org'' ''A'' = Fulfilled up"
    unfolding up_def by code_simp
  have pd: "percentage down \<noteq> Fin 100" by (simp add: down_def)
  have pu: "percentage up = Fin 100" by (simp add: up_def)
  have i3: "[1..3] = [1, 2, 3 :: int]" by code_simp
  have i1: "[1..1] = [1 :: int]" by code_simp
  from poll_loop_converges_or_exhausts
    [of 3 sample_host "\<lambda>k. world_down" DNS_SERVERS "''example.org''" "''A''" "\<lambda>k. down" 30]
  have a: "snd (monitorPropagation sample_host (\<lambda>k. world_down) DNS_SERVERS ''example.org'' ''A'' 30 3)
     = Fulfilled False
   \<and> map attempt_of (filter is_FanOut
        (fst (monitorPropagation sample_host (\<lambda>k. world_down) DNS_SERVERS ''example.org'' ''A'' 30 3)))
     = [1, 2, 3]"
    using d pd i3 by simp
  from poll_loop_converges_or_exhausts
    [of 20 sample_host "\<lambda>k. world_up" DNS_SERVERS "''example.org''" "''A''" "\<lambda>k. up" 30,
      THEN conjunct2, THEN conjunct1, rule_format, of 1]
  have b2: "map attempt_of (filter is_FanOut
        (fst (monitorPropagation sample_host (\<lambda>k. world_up) DNS_SERVERS ''example.org'' ''A'' 30 20)))
     = [1]"
    using u pu i1 by simp
  from poll_loop_converges_or_exhausts
    [of 20 sample_host "\<lambda>k. world_up" DNS_SERVERS "''example.org''" "''A''" "\<lambda>k. up" 30,
      THEN conjunct1]
  have b1: "snd (monitorPropagation sample_host (\<lambda>k. world_up) DNS_SERVERS ''example.org'' ''A'' 30 20)
     = Fulfilled True"
    using u pu by auto
  show ?thesis using a b1 b2 by simp
qed

text \<open>
  C6. In every run of the poll loop fan-outs and waits alternate, the run beginning and
  ending with a fan-out: a wait stands only between one fan-out and the next, never after
  the last. Each wait is a timer set to \<open>intervalSeconds * 1000\<close> milliseconds, a run of
  \<open>k\<close> fan-outs has \<open>k - 1\<close> waits, and a run with \<open>maxAttempts = 1\<close> is one fan-out
  and no wait.
\<close>

theorem waits_only_between_rounds:
  "alternating (intervalSeconds * 1000)
     (fst (monitorPropagation h ws targets domain recordType intervalSeconds maxAttempts))
   \<and> filter is_Wait (fst (monitorPropagation h ws targets domain recordType intervalSeconds maxAttempts))
       = replicate
           (length (filter is_FanOut
              (fst (monitorPropagation h ws targets domain recordType intervalSeconds maxAttempts))) - 1)
           (Wait (intervalSeconds * 1000))
   \<and> (fst (monitorPropagation h ws targets domain recordType intervalSeconds maxAttempts) \<noteq> []
        \<longrightarrow> is_FanOut (last (fst (monitorPropagation h ws targets domain recordType
                                     intervalSeconds maxAttempts)))
            \<and> length (filter is_FanOut
                 (fst (monitorPropagation h ws targets domain recordType intervalSeconds maxAttempts)))
              = length (filter is_Wait
                 (fst (monitorPropagation h ws targets domain recordType intervalSeconds maxAttempts))) + 1)
   \<and> fst (monitorPropagation h ws targets domain recordType intervalSeconds 1)
       = [FanOut 1 (checkPropagation h (ws 1) targets domain recordType)]"
proof -
  let ?tr = "fst (monitorPropagation h ws targets domain recordType intervalSeconds maxAttempts)"
  have alt: "alternating (intervalSeconds * 1000) ?tr"
    unfolding monitorPropagation_def by (rule monitor_loop_alternating)
  note counts = alternating_counts [OF alt]
  have "filter is_Wait ?tr
       = replicate (length (filter is_FanOut ?tr) - 1) (Wait (intervalSeconds * 1000))"
  proof (cases "?tr = []")
    case True
    then show ?thesis by simp
  next
    case False
    then have "length (filter is_FanOut ?tr) - 1 = length (filter is_Wait ?tr)"
      using counts by simp
    then show ?thesis using counts by simp
  qed
  moreover have "fst (monitorPropagation h ws targets domain recordType intervalSeconds 1)
       = [FanOut 1 (checkPropagation h (ws 1) targets domain recordType)]"
    unfolding monitorPropagation_def by (rule monitor_loop_single)
  ultimately show ?thesis using alt counts by simp
qed

theorem waits_only_between_rounds_witness:
  "fst (monitorPropagation sample_host (\<lambda>k. world_down) DNS_SERVERS ''example.org'' ''A'' 30 3) \<noteq> []
   \<and> filter is_Wait
        (fst (monitorPropagation sample_host (\<lambda>k. world_down) DNS_SERVERS ''example.org'' ''A'' 30 3))
     = [Wait 30000, Wait 30000]
   \<and> is_FanOut (last
        (fst (monitorPropagation sample_host (\<lambda>k. world_down) DNS_SERVERS ''example.org'' ''A'' 30 3)))"
proof -
  have n: "length (filter is_FanOut
      (fst (monitorPropagation sample_host (\<lambda>k. world_down) DNS_SERVERS ''example.org'' ''A'' 30 3)))
    = 3"
    by code_simp
  then have ne: "fst (monitorPropagation sample_host (\<lambda>k. world_down) DNS_SERVERS ''example.org'' ''A'' 30 3)
    \<noteq> []"
    by auto
  have r: "replicate (3 - 1) (Wait (30 * 1000)) = [Wait 30000, Wait 30000]"
    by (simp add: numeral_2_eq_2)
  from waits_only_between_rounds
    [of 30 sample_host "\<lambda>k. world_down" DNS_SERVERS "''example.org''" "''A''" 3]
  show ?thesis using n ne r by simp
qed



text \<open>
  C1. Every report that a fan-out produces has \<open>propagated\<close> equal to the number of
  outcomes with \<open>success = True\<close>, \<open>total\<close> equal to the number of targets, and one
  outcome per target, the \<open>i\<close>-th being what the probe of the \<open>i\<close>-th target
  returned. Over a non-empty list the percentage is an integer between 0 and 100; it is 0
  when every probe fails and 100 when every probe succeeds. It equals
  \<open>round(100 * propagated / total)\<close>, a tie going up, over every list of fewer than 40
  targets, as the program's list of six is, and over every longer list (an array has
  fewer than \<open>2^32\<close> entries) whose exact percentage is not half-way between two
  integers.
\<close>

theorem report_invariants:
  assumes "checkPropagation h w targets domain recordType = Fulfilled rep"
  shows "propagated rep = length (filter success (results rep))
       \<and> total rep = length targets
       \<and> length (results rep) = length targets
       \<and> (\<forall>i<length targets.
             checkDNSServer h w domain recordType (targets ! i) = Inr (results rep ! i))
       \<and> percentage rep = Math_round (js_mul (js_div (propagated rep) (total rep)) 100)
       \<and> (targets \<noteq> [] \<longrightarrow> (\<exists>k. percentage rep = Fin (of_int k) \<and> 0 \<le> k \<and> k \<le> 100))
       \<and> (targets \<noteq> [] \<and> (\<forall>r\<in>set (results rep). \<not> success r) \<longrightarrow> percentage rep = Fin 0)
       \<and> (targets \<noteq> [] \<and> (\<forall>r\<in>set (results rep). success r) \<longrightarrow> percentage rep = Fin 100)
       \<and> (targets \<noteq> [] \<and> length targets < 40 \<longrightarrow>
             percentage rep = exact_percentage (propagated rep) (total rep)
             \<and> percentage rep =
                 Fin (of_int \<lfloor>(100 * of_nat (propagated rep) / of_nat (total rep) :: rat) + 1 / 2\<rfloor>))
       \<and> (targets \<noteq> [] \<and> length targets < 2 ^ 32
             \<and> (200 * propagated rep + total rep) mod (2 * total rep) \<noteq> 0 \<longrightarrow>
             percentage rep =
                 Fin (of_int \<lfloor>(100 * of_nat (propagated rep) / of_nat (total rep) :: rat) + 1 / 2\<rfloor>))"
proof -
  note sound = checkPropagation_sound [OF assms]
  have range: "targets \<noteq> [] \<longrightarrow> (\<exists>k. percentage rep = Fin (of_int k) \<and> 0 \<le> k \<and> k \<le> 100)"
    using report_percentage_range [OF assms] by blast
  have none: "targets \<noteq> [] \<and> (\<forall>r\<in>set (results rep). \<not> success r) \<longrightarrow> percentage rep = Fin 0"
    using report_percentage_none [OF assms] by blast
  have every: "targets \<noteq> [] \<and> (\<forall>r\<in>set (results rep). success r) \<longrightarrow> percentage rep = Fin 100"
    using report_percentage_all [OF assms] by blast
  have exact: "targets \<noteq> [] \<and> length targets < 40 \<longrightarrow>
             percentage rep = exact_percentage (propagated rep) (total rep)
             \<and> percentage rep =
                 Fin (of_int \<lfloor>(100 * of_nat (propagated rep) / of_nat (total rep) :: rat) + 1 / 2\<rfloor>)"
  proof (intro impI)
    assume a: "targets \<noteq> [] \<and> length targets < 40"
    then have "0 < total rep" "total rep < 40" using sound(4) by simp_all
    from below_forty_agrees [OF this report_counts [OF assms]]
    have "percentage rep = exact_percentage (propagated rep) (total rep)"
      using sound(5) by (simp add: percentage_agrees_def)
    then show "percentage rep = exact_percentage (propagated rep) (total rep)
             \<and> percentage rep =
                 Fin (of_int \<lfloor>(100 * of_nat (propagated rep) / of_nat (total rep) :: rat) + 1 / 2\<rfloor>)"
      by (simp add: exact_percentage_def)
  qed
  have no_tie: "targets \<noteq> [] \<and> length targets < 2 ^ 32
             \<and> (200 * propagated rep + total rep) mod (2 * total rep) \<noteq> 0 \<longrightarrow>
             percentage rep =
                 Fin (of_int \<lfloor>(100 * of_nat (propagated rep) / of_nat (total rep) :: rat) + 1 / 2\<rfloor>)"
  proof (intro impI)
    assume a: "targets \<noteq> [] \<and> length targets < 2 ^ 32
             \<and> (200 * propagated rep + total rep) mod (2 * total rep) \<noteq> 0"
    then have "0 < total rep" "total rep < 2 ^ 32" using sound(4) by simp_all
    from no_tie_agrees [OF this report_counts [OF assms]] a
    have "percentage rep = exact_percentage (propagated rep) (total rep)"
      using sound(5) by (simp add: percentage_agrees_def)
    then show "percentage rep =
        Fin (of_int \<lfloor>(100 * of_nat (propagated rep) / of_nat (total rep) :: rat) + 1 / 2\<rfloor>)"
      by (simp add: exact_percentage_def)
  qed
  show ?thesis using sound(3,4,1,2,5) range none every exact no_tie
    by (intro conjI) assumption+
qed

theorem report_invariants_witness:
  "map_completion propagated (checkPropagation sample_host sample_world DNS_SERVERS ''example.org'' ''A'')
     = Fulfilled 1
   \<and> map_completion total (checkPropagation sample_host sample_world DNS_SERVERS ''example.org'' ''A'')
     = Fulfilled 6
   \<and> map_completion percentage (checkPropagation sample_host sample_world DNS_SERVERS ''example.org'' ''A'')
     = Fulfilled (Fin 17)
   \<and> exact_percentage 1 6 = Fin 17
   \<and> map_completion percentage (checkPropagation sample_host world_down DNS_SERVERS ''example.org'' ''A'')
     = Fulfilled (Fin 0)
   \<and> map_completion percentage (checkPropagation sample_host world_up DNS_SERVERS ''example.org'' ''A'')
     = Fulfilled (Fin 100)"
proof -
  have ne: "DNS_SERVERS \<noteq> []" and len: "length DNS_SERVERS < 40" "length DNS_SERVERS = 6"
    by (simp_all add: DNS_SERVERS_def)
  have s: "map_completion (map success \<circ> results)
      (checkPropagation sample_host sample_world DNS_SERVERS ''example.org'' ''A'')
    = Fulfilled [True, False, False, False, False, False]"
    by code_simp
  have d: "map_completion (map success \<circ> results)
      (checkPropagation sample_host world_down DNS_SERVERS ''example.org'' ''A'')
    = Fulfilled [False, False, False, False, False, False]"
    by code_simp
  have u: "map_completion (map success \<circ> results)
      (checkPropagation sample_host world_up DNS_SERVERS ''example.org'' ''A'')
    = Fulfilled [True, True, True, True, True, True]"
    by code_simp
  obtain rs where rs: "checkPropagation sample_host sample_world DNS_SERVERS ''example.org'' ''A'' = Fulfilled rs"
    and ss: "map success (results rs) = [True, False, False, False, False, False]"
    using s by (cases "checkPropagation sample_host sample_world DNS_SERVERS ''example.org'' ''A''") auto
  obtain rd where rd: "checkPropagation sample_host world_down DNS_SERVERS ''example.org'' ''A'' = Fulfilled rd"
    and sd: "map success (results rd) = [False, False, False, False, False, False]"
    using d by (cases "checkPropagation sample_host world_down DNS_SERVERS ''example.org'' ''A''") auto
  obtain ru where ru: "checkPropagation sample_host world_up DNS_SERVERS ''example.org'' ''A'' = Fulfilled ru"
    and su: "map success (results ru) = [True, True, True, True, True, True]"
    using u by (cases "checkPropagation sample_host world_up DNS_SERVERS ''example.org'' ''A''") auto
  have e: "exact_percentage 1 6 = Fin 17"
    by (simp add: exact_percentage_def floor_rat_numeral)
  have "length (filter success (results rs)) = length (filter (\<lambda>b. b) (map success (results rs)))"
    by (simp add: filter_map comp_def)
  also have "\<dots> = 1" unfolding ss by simp
  finally have ps: "propagated rs = 1"
    using report_invariants [OF rs, THEN conjunct1] by simp
  note inv = report_invariants [OF rs]
  have "total rs = length DNS_SERVERS" using inv by blast
  then have ts: "total rs = 6" by (simp only: len)
  have "percentage rs = exact_percentage (propagated rs) (total rs)"
    using inv ne len(1) by blast
  then have pcs: "percentage rs = Fin 17" by (simp only: ps ts e)
  have fd: "\<forall>r\<in>set (results rd). \<not> success r"
  proof
    fix r assume "r \<in> set (results rd)"
    then have "success r \<in> set (map success (results rd))" by simp
    then show "\<not> success r" unfolding sd by simp
  qed
  have fu: "\<forall>r\<in>set (results ru). success r"
  proof
    fix r assume "r \<in> set (results ru)"
    then have "success r \<in> set (map success (results ru))" by simp
    then show "success r" unfolding su by simp
  qed
  have pd: "percentage rd = Fin 0" using report_invariants [OF rd] ne fd by blast
  have pu: "percentage ru = Fin 100" using report_invariants [OF ru] ne fu by blast
  show ?thesis using rs rd ru ps ts pcs e pd pu by simp
qed

end
